theory Spec2Isabelle
  imports Complex_Main "HOL-Library.AList"
begin

section \<open>Data model (main.go)\<close>

text \<open>
  \<^verbatim>\<open>orb.Point\<close> is a pair of float64 coordinates; the coordinates are taken as reals here.
  The great-circle distance \<^verbatim>\<open>geo.Distance\<close> belongs to a library, not to this program, and is
  a parameter \<open>distance\<close> of everything that measures.
\<close>

type_synonym point = "real \<times> real"

text \<open>The struct \<^verbatim>\<open>segment\<close>. Its fields \<^verbatim>\<open>id\<close>, \<^verbatim>\<open>name\<close>, \<^verbatim>\<open>from\<close>, \<^verbatim>\<open>to\<close> carry the prefix
  \<open>seg_\<close>.\<close>

record segment =
  seg_id :: int
  seg_name :: string
  seg_from :: string
  seg_to :: string
  direction :: string
  routeID :: int
  lineString :: "point list"
  firstPoint :: point
  lastPoint :: point
  streetName :: string
  streetType :: string
  streetClass :: string

text \<open>The zero value of the struct, which Go yields for a key missing from a map.\<close>

definition zero_segment :: segment where
  "zero_segment = \<lparr>seg_id = 0, seg_name = [], seg_from = [], seg_to = [], direction = [],
     routeID = 0, lineString = [], firstPoint = (0, 0), lastPoint = (0, 0),
     streetName = [], streetType = [], streetClass = []\<rparr>"

text \<open>The struct \<^verbatim>\<open>request\<close>; fields prefixed with \<open>req_\<close> where they would clash.\<close>

record request =
  req_streetName :: string
  req_from :: string
  req_to :: string
  district :: string
  rank :: int

text \<open>Every error value the modelled functions build, and the run-time panic of an index out
  of range.\<close>

datatype error =
    ErrEmptyCandidates
  | ErrToNotInGraph int
  | ErrNoPath
  | ErrIndexOutOfRange
  | ErrUnknownDirectionPair string string int int
  | ErrRouteConflict nat
  | ErrNoStartSegments
  | ErrNoEndSegments
  | ErrConstraint int
  | ErrIndexExists
  | ErrOverrideOpen
  | ErrOverrideParse

text \<open>
  The database of \<^verbatim>\<open>sqliteStore\<close>: the rows of table \<^verbatim>\<open>segments\<close> (primary key \<^verbatim>\<open>id\<close>, scanned
  in key order), the rows \<open>(id, route_id, next_id)\<close> of table \<^verbatim>\<open>segment_links\<close> in insertion
  order, and whether the index \<^verbatim>\<open>segment_links_id\<close> exists. Failures of the database
  connection itself are not modelled.
\<close>

record store =
  segments :: "segment list"
  segment_links :: "(int \<times> int \<times> int) list"
  links_index :: bool

definition store_init :: store where
  "store_init = \<lparr>segments = [], segment_links = [], links_index = False\<rparr>"

section \<open>Filtered lookups: \<^verbatim>\<open>sqliteStore.filterSegments\<close>\<close>

text \<open>The SQL function \<^verbatim>\<open>upper\<close> of SQLite folds the ASCII letters only.\<close>

definition upper_char :: "char \<Rightarrow> char" where
  "upper_char c =
     (case map_of (zip ''abcdefghijklmnopqrstuvwxyz'' ''ABCDEFGHIJKLMNOPQRSTUVWXYZ'') c of
        None \<Rightarrow> c
      | Some u \<Rightarrow> u)"

definition upper :: "string \<Rightarrow> string" where
  "upper s = map upper_char s"

record segmentFilter =
  ids :: "int list"
  fullNames :: "string list"
  routeIDs :: "int list"
  endStreets :: "string list"

definition no_filter :: segmentFilter where
  "no_filter = \<lparr>ids = [], fullNames = [], routeIDs = [], endStreets = []\<rparr>"

text \<open>The \<^verbatim>\<open>where\<close> clause that \<^verbatim>\<open>filterSegments\<close> assembles: one conjunct per non-empty
  dimension of the filter, each a disjunction over the values given.\<close>

definition filter_where :: "segmentFilter \<Rightarrow> segment \<Rightarrow> bool" where
  "filter_where f s =
     ((ids f = [] \<or> list_ex (\<lambda>i. seg_id s = i) (ids f)) \<and>
      (fullNames f = [] \<or> list_ex (\<lambda>fn. seg_name s = upper fn) (fullNames f)) \<and>
      (routeIDs f = [] \<or> list_ex (\<lambda>i. routeID s = i) (routeIDs f)) \<and>
      (endStreets f = [] \<or>
         list_ex (\<lambda>es. upper es = seg_from s \<or> upper es = seg_to s) (endStreets f)))"

definition filterSegments :: "store \<Rightarrow> segmentFilter \<Rightarrow> segment list" where
  "filterSegments st f = filter (filter_where f) (segments st)"

section \<open>Path finder: \<^verbatim>\<open>sqliteStore.route\<close>\<close>

fun contains :: "int list \<Rightarrow> int \<Rightarrow> bool" where
  "contains [] y = False"
| "contains (z # x) y = (if z = y then True else contains x y)"

text \<open>The \<^verbatim>\<open>map[int][]int\<close> of the route graph, as an association list. Reading a missing key
  gives the nil slice.\<close>

type_synonym graph = "(int \<times> int list) list"

definition graph_get :: "graph \<Rightarrow> int \<Rightarrow> int list" where
  "graph_get g k = (case map_of g k of None \<Rightarrow> [] | Some ns \<Rightarrow> ns)"

definition graph_has :: "graph \<Rightarrow> int \<Rightarrow> bool" where
  "graph_has g k = (map_of g k \<noteq> None)"

text \<open>One scanned row \<open>(id, nextID)\<close>: append to the list of \<open>id\<close>, and make \<open>nextID\<close> a key.\<close>

definition addRow :: "graph \<Rightarrow> int \<times> int \<Rightarrow> graph" where
  "addRow g row =
     (let g1 = AList.update (fst row) (graph_get g (fst row) @ [snd row]) g
      in if graph_has g1 (snd row) then g1 else AList.update (snd row) [] g1)"

definition buildGraph :: "int \<Rightarrow> (int \<times> int) list \<Rightarrow> graph" where
  "buildGraph fid rows = foldl addRow [(fid, [])] rows"

text \<open>The query of \<^verbatim>\<open>route\<close>: the links whose route is the stored route of segment \<open>fid\<close>.\<close>

definition routeRows :: "store \<Rightarrow> int \<Rightarrow> (int \<times> int) list" where
  "routeRows st fid =
     (case find (\<lambda>s. seg_id s = fid) (segments st) of
        None \<Rightarrow> []
      | Some s \<Rightarrow> map (\<lambda>l. (fst l, snd (snd l)))
                  (filter (\<lambda>l. fst (snd l) = routeID s) (segment_links st)))"

definition route_graph :: "store \<Rightarrow> int \<Rightarrow> graph" where
  "route_graph st fid = buildGraph fid (routeRows st fid)"

text \<open>The children of a dequeued path: one per neighbour of its last node not on the path.\<close>

definition expand :: "graph \<Rightarrow> int list \<Rightarrow> int list list" where
  "expand g p = map (\<lambda>nid. p @ [nid]) (filter (\<lambda>nid. \<not> contains p nid) (graph_get g (last p)))"

text \<open>Measure of the search loop: every path weighs \<open>(K + 1) ^ r\<close>, with \<open>K\<close> the number of
  edges and \<open>r\<close> the number of edge targets not yet on the path.\<close>

definition edge_targets :: "graph \<Rightarrow> int list" where
  "edge_targets g = concat (map snd g)"

definition path_weight :: "graph \<Rightarrow> int list \<Rightarrow> nat" where
  "path_weight g p = (length (edge_targets g) + 1) ^ card (set (edge_targets g) - set p)"

definition queue_weight :: "graph \<Rightarrow> int list list \<Rightarrow> nat" where
  "queue_weight g q = sum_list (map (path_weight g) q)"

lemma contains_set: "contains x y = (y \<in> set x)"
  by (induction x) auto

lemma length_le_concat: "xs \<in> set xss \<Longrightarrow> length xs \<le> length (concat xss)"
  by (induction xss) auto

lemma graph_get_cases:
  "graph_get g k = [] \<or> (k, graph_get g k) \<in> set g"
  unfolding graph_get_def by (auto split: option.splits dest: map_of_SomeD)

lemma graph_get_in: "n \<in> set (graph_get g k) \<Longrightarrow> n \<in> set (edge_targets g)"
  using graph_get_cases [of g k] unfolding edge_targets_def by force

lemma graph_get_length: "length (graph_get g k) \<le> length (edge_targets g)"
  using graph_get_cases [of g k] length_le_concat [of "graph_get g k" "map snd g"]
  unfolding edge_targets_def by force

lemma expand_length: "length (expand g p) \<le> length (edge_targets g)"
  unfolding expand_def using graph_get_length [of g "last p"]
  by (simp add: le_trans [OF length_filter_le])

lemma expand_weight:
  assumes "c \<in> set (expand g p)"
  shows "card (set (edge_targets g) - set c) < card (set (edge_targets g) - set p)"
proof -
  from assms obtain nid where c: "c = p @ [nid]" and n: "nid \<in> set (graph_get g (last p))"
    and np: "nid \<notin> set p"
    unfolding expand_def by (auto simp: contains_set)
  from n have "nid \<in> set (edge_targets g)" by (rule graph_get_in)
  with np have "set (edge_targets g) - set c \<subset> set (edge_targets g) - set p"
    unfolding c by auto
  then show ?thesis by (simp add: psubset_card_mono)
qed

lemma sum_list_bound:
  "(\<And>x. x \<in> set xs \<Longrightarrow> f x \<le> (b::nat)) \<Longrightarrow> sum_list (map f xs) \<le> length xs * b"
  by (induction xs) (auto simp: add_le_mono)

lemma expand_queue_weight: "queue_weight g (expand g p) < path_weight g p"
proof (cases "expand g p = []")
  case True
  then show ?thesis by (simp add: queue_weight_def path_weight_def)
next
  case False
  define K where "K = length (edge_targets g)"
  define r where "r = card (set (edge_targets g) - set p)"
  from False obtain c where c: "c \<in> set (expand g p)" by (cases "expand g p") auto
  from expand_weight [OF c] have rpos: "0 < r" unfolding r_def by simp
  have "path_weight g c' \<le> (K + 1) ^ (r - 1)" if "c' \<in> set (expand g p)" for c'
    using expand_weight [OF that] unfolding path_weight_def K_def r_def
    by (intro power_increasing) auto
  then have "queue_weight g (expand g p) \<le> length (expand g p) * (K + 1) ^ (r - 1)"
    unfolding queue_weight_def by (rule sum_list_bound)
  also have "\<dots> \<le> K * (K + 1) ^ (r - 1)"
    using expand_length [of g p] unfolding K_def by simp
  also have "\<dots> < (K + 1) * (K + 1) ^ (r - 1)" by simp
  also have "\<dots> = (K + 1) ^ r" using rpos by (cases r) auto
  finally show ?thesis unfolding path_weight_def K_def r_def .
qed

text \<open>
  The loop of \<^verbatim>\<open>route\<close> over the queue \<open>q\<close> of paths, together with the test \<^verbatim>\<open>path == nil\<close>
  after it: the first dequeued path whose last node is a target is the result; an empty queue
  leaves \<^verbatim>\<open>path\<close> nil, which is the error "could not find path". Indexing an empty path would
  panic.
\<close>

function (sequential) bfs :: "graph \<Rightarrow> int list \<Rightarrow> int list list \<Rightarrow> error + int list" where
  "bfs g toIDs [] = Inl ErrNoPath"
| "bfs g toIDs ([] # q) = Inl ErrIndexOutOfRange"
| "bfs g toIDs (p # q) =
     (if contains toIDs (last p) then Inr p else bfs g toIDs (q @ expand g p))"
  by pat_completeness auto
termination
proof (relation "measure (\<lambda>(g, toIDs, q). queue_weight g q)")
  show "wf (measure (\<lambda>(g, toIDs, q). queue_weight g q))" by simp
next
  fix g :: graph and toIDs :: "int list" and v :: int and va :: "int list" and q :: "int list list"
  show "((g, toIDs, q @ expand g (v # va)), (g, toIDs, (v # va) # q))
        \<in> measure (\<lambda>(g, toIDs, q). queue_weight g q)"
    using expand_queue_weight [of g "v # va"] by (simp add: queue_weight_def)
qed

definition segsByID :: "segment list \<Rightarrow> (int \<rightharpoonup> segment)" where
  "segsByID segs = foldl (\<lambda>m seg. m(seg_id seg \<mapsto> seg)) Map.empty segs"

definition map_get :: "(int \<rightharpoonup> segment) \<Rightarrow> int \<Rightarrow> segment" where
  "map_get m k = (case m k of None \<Rightarrow> zero_segment | Some s \<Rightarrow> s)"

text \<open>The final loop \<^verbatim>\<open>for i, id := range path { segs[i] = segsByID[id] }\<close>; writing past the
  end of \<open>segs\<close> panics.\<close>

fun reorder :: "(int \<rightharpoonup> segment) \<Rightarrow> int list \<Rightarrow> nat \<Rightarrow> segment list \<Rightarrow> error + segment list" where
  "reorder m [] i segs = Inr segs"
| "reorder m (k # path) i segs =
     (if i < length segs then reorder m path (Suc i) (segs[i := map_get m k])
      else Inl ErrIndexOutOfRange)"

text \<open>
  \<^verbatim>\<open>route\<close>: the check of the two candidate lists; the graph of the route of the first
  from-segment, which has that segment as a key from the start; the check that every
  to-segment is a key of the graph; the search from the first from-segment alone; and the
  segments of the path found, fetched by id and put in the order of the path.
\<close>

definition route :: "store \<Rightarrow> segment list \<Rightarrow> segment list \<Rightarrow> error + segment list" where
  "route st fromSegments toSegments =
     (if fromSegments = [] \<or> toSegments = [] then Inl ErrEmptyCandidates
      else
        let fid = seg_id (hd fromSegments);
            g = route_graph st fid
        in case find (\<lambda>seg. \<not> graph_has g (seg_id seg)) toSegments of
             Some seg \<Rightarrow> Inl (ErrToNotInGraph (seg_id seg))
           | None \<Rightarrow>
               (case bfs g (map seg_id toSegments) [[fid]] of
                  Inl e \<Rightarrow> Inl e
                | Inr path \<Rightarrow>
                    let segs = filterSegments st (no_filter\<lparr>ids := path\<rparr>)
                    in reorder (segsByID segs) path 0 segs))"

section \<open>Adjacency builder: \<^verbatim>\<open>sqliteStore.loadSegments\<close>\<close>

definition isClose :: "(point \<Rightarrow> point \<Rightarrow> real) \<Rightarrow> point \<Rightarrow> point \<Rightarrow> bool" where
  "isClose distance a b = (distance a b < 1)"

text \<open>The \<^verbatim>\<open>switch\<close> of \<^verbatim>\<open>matches\<close> on \<^verbatim>\<open>cur.direction + " " + next.direction\<close>: whether \<open>next\<close> is
  appended to \<open>out\<close>, or the error of the default case.\<close>

definition direction_switch ::
  "(point \<Rightarrow> point \<Rightarrow> real) \<Rightarrow> segment \<Rightarrow> segment \<Rightarrow> error + bool" where
  "direction_switch distance cur next =
     (let key = direction cur @ '' '' @ direction next in
      if key = ''BOTH BOTH'' then
        Inr (isClose distance (firstPoint cur) (firstPoint next) \<or>
             isClose distance (firstPoint cur) (lastPoint next) \<or>
             isClose distance (lastPoint cur) (firstPoint next) \<or>
             isClose distance (lastPoint cur) (lastPoint next))
      else if key = ''BOTH FOTD'' then
        Inr (isClose distance (firstPoint next) (firstPoint cur) \<or>
             isClose distance (firstPoint next) (lastPoint cur))
      else if key = ''BOTH FDTO'' then Inr False
      else if key = ''FOTD FOTD'' then
        Inr (isClose distance (firstPoint next) (lastPoint cur))
      else if key = ''FOTD BOTH'' then
        Inr (isClose distance (lastPoint cur) (firstPoint next) \<or>
             isClose distance (lastPoint cur) (lastPoint next))
      else if key = ''FDTO BOTH'' then Inr False
      else Inl (ErrUnknownDirectionPair (direction cur) (direction next)
                  (seg_id cur) (seg_id next)))"

text \<open>The loop of \<^verbatim>\<open>matches\<close> over \<open>segs\<close>, with the slice \<open>out\<close> built so far.\<close>

fun matches_loop ::
  "(point \<Rightarrow> point \<Rightarrow> real) \<Rightarrow> segment \<Rightarrow> segment list \<Rightarrow> segment list \<Rightarrow> error + segment list" where
  "matches_loop distance cur [] out = Inr out"
| "matches_loop distance cur (next # segs) out =
     (if seg_id cur = seg_id next then matches_loop distance cur segs out
      else case direction_switch distance cur next of
             Inl e \<Rightarrow> Inl e
           | Inr add \<Rightarrow> matches_loop distance cur segs (if add then out @ [next] else out))"

definition matches ::
  "(point \<Rightarrow> point \<Rightarrow> real) \<Rightarrow> segment list \<Rightarrow> segment \<Rightarrow> error + segment list" where
  "matches distance segs cur = matches_loop distance cur segs []"

text \<open>The first transaction: one \<^verbatim>\<open>insert\<close> per segment. A row whose id is already in the
  table violates the primary key, and the statement fails.\<close>

fun insertSegments :: "segment list \<Rightarrow> segment list \<Rightarrow> error + segment list" where
  "insertSegments [] tbl = Inr tbl"
| "insertSegments (seg # segs) tbl =
     (if seg_id seg \<in> set (map seg_id tbl) then Inl (ErrConstraint (seg_id seg))
      else insertSegments segs (insort_key seg_id seg tbl))"

text \<open>The rows the second transaction inserts for the segments \<open>todo\<close> of one route, whose
  segments are \<open>routeSegs\<close>.\<close>

fun routeLinkRows ::
  "(point \<Rightarrow> point \<Rightarrow> real) \<Rightarrow> segment list \<Rightarrow> segment list \<Rightarrow> error + (int \<times> int \<times> int) list" where
  "routeLinkRows distance routeSegs [] = Inr []"
| "routeLinkRows distance routeSegs (seg # todo) =
     (case matches distance routeSegs seg of
        Inl e \<Rightarrow> Inl e
      | Inr nextSegs \<Rightarrow>
          (case routeLinkRows distance routeSegs todo of
             Inl e \<Rightarrow> Inl e
           | Inr rows \<Rightarrow>
               Inr (map (\<lambda>next. (seg_id seg, routeID seg, seg_id next)) nextSegs @ rows)))"

text \<open>The entry of the map \<^verbatim>\<open>routeSegments\<close> for one route: its segments, in the order of the
  batch.\<close>

definition routeSegments :: "segment list \<Rightarrow> int \<Rightarrow> segment list" where
  "routeSegments segs r = filter (\<lambda>seg. routeID seg = r) segs"

fun linkRows ::
  "(point \<Rightarrow> point \<Rightarrow> real) \<Rightarrow> segment list \<Rightarrow> int list \<Rightarrow> error + (int \<times> int \<times> int) list" where
  "linkRows distance segs [] = Inr []"
| "linkRows distance segs (r # rs) =
     (case routeLinkRows distance (routeSegments segs r) (routeSegments segs r) of
        Inl e \<Rightarrow> Inl e
      | Inr rows \<Rightarrow>
          (case linkRows distance segs rs of
             Inl e \<Rightarrow> Inl e
           | Inr rows' \<Rightarrow> Inr (rows @ rows')))"

text \<open>
  \<^verbatim>\<open>loadSegments\<close>: the returned error, if any, and the database afterwards. The segments
  are inserted and committed in a first transaction; the links are computed and inserted in
  a second one, which the deferred \<^verbatim>\<open>Rollback\<close> undoes when \<^verbatim>\<open>matches\<close> fails; the index is
  created last. Go leaves the order in which \<^verbatim>\<open>range routeSegments\<close> visits the routes
  open; here it is the order of first appearance in the batch.
\<close>

definition loadSegments ::
  "(point \<Rightarrow> point \<Rightarrow> real) \<Rightarrow> segment list \<Rightarrow> store \<Rightarrow> error option \<times> store" where
  "loadSegments distance segs st =
     (case insertSegments segs (segments st) of
        Inl e \<Rightarrow> (Some e, st)
      | Inr tbl \<Rightarrow>
          let st1 = st\<lparr>segments := tbl\<rparr> in
          (case linkRows distance segs (remdups (map routeID segs)) of
             Inl e \<Rightarrow> (Some e, st1)
           | Inr rows \<Rightarrow>
               let st2 = st1\<lparr>segment_links := segment_links st1 @ rows\<rparr> in
               if links_index st2 then (Some ErrIndexExists, st2)
               else (None, st2\<lparr>links_index := True\<rparr>)))"

section \<open>Discovery pipeline\<close>

record processingRequest =
  preq_req :: request
  preq_startSegments :: "segment list"
  preq_endSegments :: "segment list"

record requestAttempt =
  att_startSegments :: "segment list"
  att_startErr :: "error option"
  att_endSegments :: "segment list"
  att_endErr :: "error option"
  att_routeSegments :: "segment list"
  att_routeErr :: "error option"

record requestResult =
  res_startSegments :: "segment list"
  res_endSegments :: "segment list"
  res_routeSegments :: "segment list"

text \<open>A stage handler returns the two Go results: the segments and the error (nil is \<open>None\<close>).\<close>

type_synonym handler = "processingRequest \<Rightarrow> segment list \<times> error option"

record requestHandler =
  hand_req :: request
  startHandler :: handler
  endHandler :: handler
  routeHandler :: handler

text \<open>A function that returns \<^verbatim>\<open>nil, err\<close> or \<^verbatim>\<open>segs, nil\<close>, as its two results.\<close>

definition results :: "error + segment list \<Rightarrow> segment list \<times> error option" where
  "results r = (case r of Inl e \<Rightarrow> ([], Some e) | Inr segs \<Rightarrow> (segs, None))"

text \<open>\<^verbatim>\<open>handleAttempt\<close> runs the stages in turn and stops at the first that returns no
  segment; \<^verbatim>\<open>handle\<close> returns the first error of the attempt, or its three lists.\<close>

definition handleAttempt :: "requestHandler \<Rightarrow> requestAttempt" where
  "handleAttempt s =
     (let preq = \<lparr>preq_req = hand_req s, preq_startSegments = [], preq_endSegments = []\<rparr>;
          (startSegs, startErr) = startHandler s preq
      in if length startSegs = 0 then
           \<lparr>att_startSegments = startSegs, att_startErr = Some ErrNoStartSegments,
            att_endSegments = [], att_endErr = Some ErrNoStartSegments,
            att_routeSegments = [], att_routeErr = Some ErrNoStartSegments\<rparr>
         else
           let preq1 = preq\<lparr>preq_startSegments := startSegs\<rparr>;
               (endSegs, endErr) = endHandler s preq1
           in if length endSegs = 0 then
                \<lparr>att_startSegments = startSegs, att_startErr = startErr,
                 att_endSegments = endSegs, att_endErr = Some ErrNoEndSegments,
                 att_routeSegments = [], att_routeErr = Some ErrNoEndSegments\<rparr>
              else
                let preq2 = preq1\<lparr>preq_endSegments := endSegs\<rparr>;
                    (routeSegs, routeErr) = routeHandler s preq2
                in \<lparr>att_startSegments = startSegs, att_startErr = startErr,
                    att_endSegments = endSegs, att_endErr = endErr,
                    att_routeSegments = routeSegs, att_routeErr = routeErr\<rparr>)"

definition handle :: "requestHandler \<Rightarrow> error + requestResult" where
  "handle s =
     (let att = handleAttempt s
      in case List.map_filter (\<lambda>e. e) [att_startErr att, att_endErr att, att_routeErr att] of
           err # _ \<Rightarrow> Inl err
         | [] \<Rightarrow> Inr \<lparr>res_startSegments = att_startSegments att,
                      res_endSegments = att_endSegments att,
                      res_routeSegments = att_routeSegments att\<rparr>)"

text \<open>
  The override file \<^verbatim>\<open>overrides/<rank>.<stage>\<close> as \<^verbatim>\<open>overrideDiscovery\<close> meets it: absent,
  unreadable, or its lines, each with what \<^verbatim>\<open>strconv.Atoi\<close> makes of it (\<open>None\<close> when it
  fails). The file system is a parameter \<open>files\<close>, from rank and stage to the file.
\<close>

datatype override_file = NotExist | OpenFails | Lines "int option list"

fun parse_ids :: "int option list \<Rightarrow> int list \<Rightarrow> error + int list" where
  "parse_ids [] acc = Inr acc"
| "parse_ids (None # ls) acc = Inl ErrOverrideParse"
| "parse_ids (Some i # ls) acc = parse_ids ls (acc @ [i])"

definition overrideDiscovery ::
  "(int \<Rightarrow> string \<Rightarrow> override_file) \<Rightarrow> string \<Rightarrow> store \<Rightarrow> handler \<Rightarrow> handler" where
  "overrideDiscovery files stage st nxt preq =
     (case files (rank (preq_req preq)) stage of
        NotExist \<Rightarrow> nxt preq
      | OpenFails \<Rightarrow> ([], Some ErrOverrideOpen)
      | Lines ls \<Rightarrow>
          (case parse_ids ls [] of
             Inl e \<Rightarrow> ([], Some e)
           | Inr parsed \<Rightarrow> (filterSegments st (no_filter\<lparr>ids := parsed\<rparr>), None)))"

text \<open>\<^verbatim>\<open>strings.ReplaceAll(s, "'", "")\<close>.\<close>

definition unquote :: "string \<Rightarrow> string" where
  "unquote s = filter (\<lambda>c. c \<noteq> CHR 0x27) s"

definition startDiscovery :: "store \<Rightarrow> handler" where
  "startDiscovery st preq =
     (let f = no_filter\<lparr>fullNames := [unquote (req_streetName (preq_req preq))]\<rparr>;
          f' = (if req_from (preq_req preq) \<noteq> []
                then f\<lparr>endStreets := [unquote (req_from (preq_req preq))]\<rparr> else f);
          segs = filterSegments st f';
          rids = remdups (map routeID segs)
      in if length rids > 1 then ([], Some (ErrRouteConflict (length rids)))
         else (segs, None))"

text \<open>\<^verbatim>\<open>preq.startSegments[0]\<close> panics when there is no start segment; \<^verbatim>\<open>handleAttempt\<close> calls
  the end and route stages with start segments only.\<close>

definition endDiscovery :: "store \<Rightarrow> handler" where
  "endDiscovery st preq =
     (case preq_startSegments preq of
        [] \<Rightarrow> ([], Some ErrIndexOutOfRange)
      | s0 # _ \<Rightarrow>
          let f = no_filter\<lparr>routeIDs := [routeID s0]\<rparr>;
              f' = (if req_to (preq_req preq) \<noteq> []
                    then f\<lparr>endStreets := [unquote (req_to (preq_req preq))]\<rparr> else f)
          in (filterSegments st f', None))"

text \<open>\<^verbatim>\<open>startIDs := make([]int, len(preq.startSegments))\<close> followed by one \<^verbatim>\<open>append\<close> per start
  segment: as many zeros as there are start segments, then their ids.\<close>

definition startIDs :: "segment list \<Rightarrow> int list" where
  "startIDs startSegs = replicate (length startSegs) 0 @ map seg_id startSegs"

text \<open>\<^verbatim>\<open>for len(route) > 2 && contains(startIDs, route[1].id) { route = route[1:] }\<close>.\<close>

fun trim :: "int list \<Rightarrow> segment list \<Rightarrow> segment list" where
  "trim sids (a # b # c # rest) =
     (if contains sids (seg_id b) then trim sids (b # c # rest) else a # b # c # rest)"
| "trim sids rt = rt"

text \<open>The loop over the end segments that keeps the longest path from \<open>r0\<close>, the first segment
  of the route at that point.\<close>

fun longest :: "store \<Rightarrow> segment \<Rightarrow> segment list \<Rightarrow> segment list \<Rightarrow> error + segment list" where
  "longest st r0 [] path = Inr path"
| "longest st r0 (e # ends) path =
     (case route st [r0] [e] of
        Inl err \<Rightarrow> Inl err
      | Inr c \<Rightarrow> longest st r0 ends (if length c > length path then c else path))"

text \<open>The body of \<^verbatim>\<open>routeDiscovery\<close>, as a result or an error; \<open>routeDiscovery\<close> is the handler.\<close>

definition routeDiscovery' :: "store \<Rightarrow> processingRequest \<Rightarrow> error + segment list" where
  "routeDiscovery' st preq =
     (let req = preq_req preq in
      if req_from req = [] \<and> req_to req = [] then
        (case preq_startSegments preq of
           [] \<Rightarrow> Inl ErrIndexOutOfRange
         | s0 # _ \<Rightarrow> Inr (filterSegments st (no_filter\<lparr>routeIDs := [routeID s0]\<rparr>)))
      else
        case route st (preq_startSegments preq) (preq_endSegments preq) of
          Inl e \<Rightarrow> Inl e
        | Inr rt \<Rightarrow>
            let rt1 = (if req_from req \<noteq> [] then trim (startIDs (preq_startSegments preq)) rt
                       else rt)
            in if req_to req = [] \<or> req_to req = req_from req then
                 (case rt1 of
                    [] \<Rightarrow> Inl ErrIndexOutOfRange
                  | r0 # _ \<Rightarrow> longest st r0 (preq_endSegments preq) rt1)
               else Inr rt1)"

definition routeDiscovery :: "store \<Rightarrow> handler" where
  "routeDiscovery st preq = results (routeDiscovery' st preq)"

definition newDefaultRequestHandler ::
  "(int \<Rightarrow> string \<Rightarrow> override_file) \<Rightarrow> store \<Rightarrow> request \<Rightarrow> requestHandler" where
  "newDefaultRequestHandler files st req =
     \<lparr>hand_req = req,
      startHandler = overrideDiscovery files ''start'' st (startDiscovery st),
      endHandler = overrideDiscovery files ''end'' st (endDiscovery st),
      routeHandler = overrideDiscovery files ''route'' st (routeDiscovery st)\<rparr>"

section \<open>Notions the claims and their proofs are stated with\<close>

text \<open>The primary key of table \<^verbatim>\<open>segments\<close>: no two rows share an id.\<close>

definition store_ok :: "store \<Rightarrow> bool" where
  "store_ok st = distinct (map seg_id (segments st))"

text \<open>What the claims about the path finder speak of: \<open>edge g a b\<close> when \<open>b\<close> is in the list of
  \<open>a\<close>; a walk follows edges; a simple path from \<open>s\<close> is a non-empty walk that starts at \<open>s\<close>
  and repeats no node.\<close>

definition edge :: "graph \<Rightarrow> int \<Rightarrow> int \<Rightarrow> bool" where
  "edge g a b = (b \<in> set (graph_get g a))"

fun walk :: "graph \<Rightarrow> int list \<Rightarrow> bool" where
  "walk g [] = True"
| "walk g [x] = True"
| "walk g (x # y # zs) = (edge g x y \<and> walk g (y # zs))"

definition simple_path :: "graph \<Rightarrow> int \<Rightarrow> int list \<Rightarrow> bool" where
  "simple_path g s p = (p \<noteq> [] \<and> hd p = s \<and> distinct p \<and> walk g p)"

text \<open>The route that the database records for segment \<open>fid\<close>.\<close>

definition stored_route :: "store \<Rightarrow> int \<Rightarrow> int option" where
  "stored_route st fid = map_option routeID (find (\<lambda>s. seg_id s = fid) (segments st))"

text \<open>The nodes of the graph that \<^verbatim>\<open>route\<close> builds for the seed \<open>fid\<close>, said on the database:
  the seed, and both ends of every link of the seed's stored route.\<close>

definition graph_node :: "store \<Rightarrow> int \<Rightarrow> int \<Rightarrow> bool" where
  "graph_node st fid k =
     (k = fid \<or>
      (\<exists>r. stored_route st fid = Some r \<and>
         (\<exists>l \<in> set (segment_links st). fst (snd l) = r \<and> (fst l = k \<or> snd (snd l) = k))))"

text \<open>Invariants of the queue: its paths are simple paths from the seed, ordered by length,
  none longer than the head by more than one; and a path \<open>w\<close> is covered while some queued path
  is a prefix of it.\<close>

definition queue_ok :: "graph \<Rightarrow> int \<Rightarrow> int list list \<Rightarrow> bool" where
  "queue_ok g s q = ((\<forall>p \<in> set q. simple_path g s p) \<and> sorted (map length q) \<and>
      (\<forall>p \<in> set q. length p \<le> Suc (length (hd q))))"

definition covers :: "int list list \<Rightarrow> int list \<Rightarrow> bool" where
  "covers q w = (\<exists>p \<in> set q. \<exists>r. w = p @ r)"

text \<open>
  The directionality-pair table in the words of the specification, with \<open>BOTH\<close> for
  bidirectional, \<open>FOTD\<close> for first-to-last and \<open>FDTO\<close> for last-to-first: the pairs it
  enumerates, and when it allows an edge from \<open>cur\<close> to \<open>next\<close>.
\<close>

definition enumerated_pair :: "string \<Rightarrow> string \<Rightarrow> bool" where
  "enumerated_pair c n =
     ((c, n) \<in> set [(''BOTH'', ''BOTH''), (''BOTH'', ''FOTD''), (''BOTH'', ''FDTO''),
                   (''FOTD'', ''FOTD''), (''FOTD'', ''BOTH''), (''FDTO'', ''BOTH'')])"

definition table_edge :: "(point \<Rightarrow> point \<Rightarrow> real) \<Rightarrow> segment \<Rightarrow> segment \<Rightarrow> bool" where
  "table_edge distance cur next =
     ((direction cur = ''BOTH'' \<and> direction next = ''BOTH'' \<and>
         (isClose distance (firstPoint cur) (firstPoint next) \<or>
          isClose distance (firstPoint cur) (lastPoint next) \<or>
          isClose distance (lastPoint cur) (firstPoint next) \<or>
          isClose distance (lastPoint cur) (lastPoint next))) \<or>
      (direction cur = ''BOTH'' \<and> direction next = ''FOTD'' \<and>
         (isClose distance (firstPoint next) (firstPoint cur) \<or>
          isClose distance (firstPoint next) (lastPoint cur))) \<or>
      (direction cur = ''FOTD'' \<and> direction next = ''FOTD'' \<and>
         isClose distance (firstPoint next) (lastPoint cur)) \<or>
      (direction cur = ''FOTD'' \<and> direction next = ''BOTH'' \<and>
         (isClose distance (lastPoint cur) (firstPoint next) \<or>
          isClose distance (lastPoint cur) (lastPoint next))))"

text \<open>The first segment of \<open>segs\<close>, other than \<open>cur\<close>, whose pairing with \<open>cur\<close> the table does
  not enumerate.\<close>

definition first_unknown :: "segment list \<Rightarrow> segment \<Rightarrow> segment option" where
  "first_unknown segs cur =
     find (\<lambda>next. seg_id next \<noteq> seg_id cur \<and>
                  \<not> enumerated_pair (direction cur) (direction next)) segs"

text \<open>A batch has an unknown pair when two of its segments with different ids lie on one route
  and the table does not enumerate their directions; \<open>table_rows\<close> are the link rows the table
  allows among the segments of a batch.\<close>

definition unknown_pair :: "segment list \<Rightarrow> bool" where
  "unknown_pair segs =
     (\<exists>cur \<in> set segs. \<exists>next \<in> set segs. routeID next = routeID cur \<and>
        seg_id next \<noteq> seg_id cur \<and> \<not> enumerated_pair (direction cur) (direction next))"

definition table_rows ::
  "(point \<Rightarrow> point \<Rightarrow> real) \<Rightarrow> segment list \<Rightarrow> (int \<times> int \<times> int) set" where
  "table_rows distance segs =
     {(seg_id cur, routeID cur, seg_id next) | cur next.
        cur \<in> set segs \<and> next \<in> set segs \<and> routeID next = routeID cur \<and>
        seg_id next \<noteq> seg_id cur \<and> table_edge distance cur next}"

text \<open>A segment matched by the request's street name and, when given, its from street: what
  the filter of \<^verbatim>\<open>startDiscovery\<close> selects.\<close>

definition start_match :: "request \<Rightarrow> segment \<Rightarrow> bool" where
  "start_match req s =
     (seg_name s = upper (unquote (req_streetName req)) \<and>
      (req_from req = [] \<or> upper (unquote (req_from req)) = seg_from s \<or>
       upper (unquote (req_from req)) = seg_to s))"

text \<open>The request as the start stage receives it.\<close>

definition initial_preq :: "request \<Rightarrow> processingRequest" where
  "initial_preq req = \<lparr>preq_req = req, preq_startSegments = [], preq_endSegments = []\<rparr>"

text \<open>The request as the end stage and as the route stage of a handler receive it: with the
  segments that the stages before returned.\<close>

definition end_preq :: "requestHandler \<Rightarrow> processingRequest" where
  "end_preq s = (initial_preq (hand_req s))
     \<lparr>preq_startSegments := fst (startHandler s (initial_preq (hand_req s)))\<rparr>"

definition route_preq :: "requestHandler \<Rightarrow> processingRequest" where
  "route_preq s = (end_preq s)\<lparr>preq_endSegments := fst (endHandler s (end_preq s))\<rparr>"

text \<open>The attempt in which every stage carries the same error.\<close>

definition failed_attempt :: "segment list \<Rightarrow> error \<Rightarrow> requestAttempt" where
  "failed_attempt segs e =
     \<lparr>att_startSegments = segs, att_startErr = Some e, att_endSegments = [], att_endErr = Some e,
      att_routeSegments = [], att_routeErr = Some e\<rparr>"

text \<open>The same request under another rank.\<close>

definition with_rank :: "int \<Rightarrow> processingRequest \<Rightarrow> processingRequest" where
  "with_rank k preq = preq\<lparr>preq_req := (preq_req preq)\<lparr>rank := k\<rparr>\<rparr>"

section \<open>Example data\<close>

text \<open>Segments as the tests of the repository write them: the fields not given are zero.\<close>

definition test_segment ::
  "int \<Rightarrow> string \<Rightarrow> string \<Rightarrow> string \<Rightarrow> int \<Rightarrow> string \<Rightarrow> point \<Rightarrow> point \<Rightarrow> segment" where
  "test_segment i n f t r d fp lp =
     zero_segment\<lparr>seg_id := i, seg_name := n, seg_from := f, seg_to := t, routeID := r,
       direction := d, firstPoint := fp, lastPoint := lp\<rparr>"

definition test_request :: "string \<Rightarrow> string \<Rightarrow> string \<Rightarrow> request" where
  "test_request n f t = \<lparr>req_streetName = n, req_from = f, req_to = t, district = [], rank = 0\<rparr>"

text \<open>A stand-in for the distance in examples: the sum of the coordinate differences.\<close>

definition taxicab :: "point \<Rightarrow> point \<Rightarrow> real" where
  "taxicab a b = \<bar>fst a - fst b\<bar> + \<bar>snd a - snd b\<bar>"

definition s1 :: segment where
  "s1 = test_segment 1 ''TEST LN'' ''A ST'' ''B ST'' 1 ''BOTH'' (0, 0) (0, 1)"

definition s2 :: segment where
  "s2 = test_segment 2 ''TEST LN'' ''B ST'' ''C ST'' 1 ''BOTH'' (0, 1) (0, 2)"

definition s3 :: segment where
  "s3 = test_segment 3 ''TEST LN'' ''C ST'' ''D ST'' 1 ''BOTH'' (0, 2) (0, 3)"

definition s4 :: segment where
  "s4 = test_segment 4 ''TEST LN'' ''D ST'' ''E ST'' 1 ''BOTH'' (0, 3) (0, 4)"

definition irr :: segment where
  "irr = test_segment 10 ''IRRELEVANT PL'' ''A ST'' ''B ST'' 2 ''BOTH'' (0, 0) (0, 0)"

text \<open>The database after loading the segments of the repository's route test.\<close>

definition chain_store :: store where
  "chain_store = \<lparr>segments = [s1, s2, s3, s4, irr],
     segment_links = [(1, 1, 2), (2, 1, 1), (2, 1, 3), (3, 1, 2), (3, 1, 4), (4, 1, 3)],
     links_index = True\<rparr>"

text \<open>Two one-way segments in a row, and the database after loading them.\<close>

definition o1 :: segment where
  "o1 = test_segment 1 ''ONE WAY'' ''A ST'' ''B ST'' 1 ''FOTD'' (0, 0) (0, 1)"

definition o2 :: segment where
  "o2 = test_segment 2 ''ONE WAY'' ''B ST'' ''C ST'' 1 ''FOTD'' (0, 1) (0, 2)"

definition oneway_store :: store where
  "oneway_store = \<lparr>segments = [o1, o2], segment_links = [(1, 1, 2)], links_index = True\<rparr>"

text \<open>Two segments of one route that lie apart, and the database after loading them.\<close>

definition i1 :: segment where
  "i1 = test_segment 1 ''TEST LN'' ''A ST'' ''B ST'' 1 ''BOTH'' (0, 0) (0, 1)"

definition i2 :: segment where
  "i2 = test_segment 2 ''TEST LN'' ''C ST'' ''D ST'' 1 ''BOTH'' (0, 5) (0, 6)"

definition island_store :: store where
  "island_store = \<lparr>segments = [i1, i2], segment_links = [], links_index = True\<rparr>"

text \<open>Three segments in a row, the middle one with id 0, and the database after loading
  them.\<close>

definition z0 :: segment where
  "z0 = test_segment 0 ''TEST LN'' ''B ST'' ''C ST'' 1 ''BOTH'' (0, 1) (0, 2)"

definition z5 :: segment where
  "z5 = test_segment 5 ''TEST LN'' ''A ST'' ''B ST'' 1 ''BOTH'' (0, 0) (0, 1)"

definition z7 :: segment where
  "z7 = test_segment 7 ''TEST LN'' ''C ST'' ''D ST'' 1 ''BOTH'' (0, 2) (0, 3)"

definition zero_store :: store where
  "zero_store = \<lparr>segments = [z0, z5, z7],
     segment_links = [(0, 1, 5), (0, 1, 7), (5, 1, 0), (7, 1, 0)], links_index = True\<rparr>"

text \<open>The segments of the repository's test of a route conflict: one name on two routes.\<close>

definition a1 :: segment where
  "a1 = test_segment 1 ''TEST LN'' ''A ST'' ''B ST'' 1 ''BOTH'' (0, 0) (0, 0)"

definition a2 :: segment where
  "a2 = test_segment 2 ''TEST LN'' ''A ST'' ''B ST'' 2 ''BOTH'' (0, 0) (0, 0)"

definition conflict_store :: store where
  "conflict_store = \<lparr>segments = [a1, a2], segment_links = [], links_index = True\<rparr>"

text \<open>Two segments of one route that both run last-to-first: a pairing the table does not
  enumerate.\<close>

definition d1 :: segment where
  "d1 = test_segment 1 ''BACK LN'' ''A ST'' ''B ST'' 1 ''FDTO'' (0, 0) (0, 1)"

definition d2 :: segment where
  "d2 = test_segment 2 ''BACK LN'' ''B ST'' ''C ST'' 1 ''FDTO'' (0, 1) (0, 2)"

text \<open>No override file exists.\<close>

definition no_files :: "int \<Rightarrow> string \<Rightarrow> override_file" where
  "no_files rk stage = NotExist"

text \<open>The override file of the route stage holds the id 99, which no segment has; no other
  file exists.\<close>

definition route_override :: "int \<Rightarrow> string \<Rightarrow> override_file" where
  "route_override rk stage = (if stage = ''route'' then Lines [Some 99] else NotExist)"

text \<open>The override file of the end stage holds the ids 3 and 4; no other file exists.\<close>

definition end_override :: "int \<Rightarrow> string \<Rightarrow> override_file" where
  "end_override rk stage = (if stage = ''end'' then Lines [Some 3, Some 4] else NotExist)"

text \<open>An override of the start stage for rank 1 with the id 2; no other file exists.\<close>

definition rank_override :: "int \<Rightarrow> string \<Rightarrow> override_file" where
  "rank_override rk stage = (if rk = 1 \<and> stage = ''start'' then Lines [Some 2] else NotExist)"

text \<open>The request "Test Ln from B St" (to the end), with the start candidates \<open>s1\<close>, \<open>s2\<close> that
  start discovery finds, and the end candidates \<open>s3\<close>, \<open>s4\<close>.\<close>

text \<open>The request "One Way from C St" (to the end) on the two one-way segments, with the start
  candidate \<open>o2\<close> and, as end candidates, the segments of the route.\<close>

definition from_c_preq :: processingRequest where
  "from_c_preq = \<lparr>preq_req = test_request ''One Way'' ''C St'' [],
     preq_startSegments = [o2], preq_endSegments = [o2, o1]\<rparr>"

definition from_b_preq :: processingRequest where
  "from_b_preq = \<lparr>preq_req = test_request ''Test Ln'' ''B St'' [],
     preq_startSegments = [s1, s2], preq_endSegments = [s3, s4]\<rparr>"

section \<open>The search loop\<close>

lemma walk_snoc: "walk g (p @ [n]) = (walk g p \<and> (p = [] \<or> edge g (last p) n))"
  by (induction g p rule: walk.induct) auto

lemma walk_append_edge:
  "walk g (p @ r) \<Longrightarrow> p \<noteq> [] \<Longrightarrow> r \<noteq> [] \<Longrightarrow> edge g (last p) (hd r)"
  by (induction g p rule: walk.induct) (auto simp: neq_Nil_conv)

lemma walk_nth: "walk g p \<Longrightarrow> Suc i < length p \<Longrightarrow> edge g (p ! i) (p ! Suc i)"
proof (induction g p arbitrary: i rule: walk.induct)
  case (3 g x y zs)
  then show ?case by (cases i) auto
qed simp_all

lemma walk_stuck:
  "graph_get g s = [] \<Longrightarrow> w \<noteq> [] \<Longrightarrow> hd w = s \<Longrightarrow> walk g w \<Longrightarrow> w = [s]"
  by (induction g w rule: walk.induct) (auto simp: edge_def)

lemma walk_suffix: "walk g (a @ b) \<Longrightarrow> walk g b"
proof (induction a)
  case Nil
  then show ?case by simp
next
  case (Cons x a)
  then show ?case by (cases "a @ b") auto
qed

lemma walk_Cons: "walk g (x # p) = (p = [] \<or> (edge g x (hd p) \<and> walk g p))"
  by (cases p) auto

lemma walk_to_simple_path:
  "walk g w \<Longrightarrow> w \<noteq> [] \<Longrightarrow> \<exists>p. simple_path g (hd w) p \<and> last p = last w"
proof (induction w)
  case Nil
  then show ?case by simp
next
  case (Cons x w)
  show ?case
  proof (cases w)
    case Nil
    then have "simple_path g x [x] \<and> last [x] = last (x # w)" by (simp add: simple_path_def)
    then show ?thesis by auto
  next
    case (Cons y zs)
    with Cons.prems have e: "edge g x y" and w: "walk g w" by auto
    from Cons.IH [OF w] Cons obtain p where p: "simple_path g y p" "last p = last w" by auto
    then have pne: "p \<noteq> []" and hp: "hd p = y" and dp: "distinct p" and wp: "walk g p"
      by (auto simp: simple_path_def)
    show ?thesis
    proof (cases "x \<in> set p")
      case True
      then obtain a b where ab: "p = a @ x # b" by (auto simp: in_set_conv_decomp)
      have "walk g (x # b)" using wp unfolding ab by (rule walk_suffix)
      moreover have "distinct (x # b)" using dp unfolding ab by simp
      moreover have "last (x # b) = last p" unfolding ab by simp
      ultimately have "simple_path g x (x # b) \<and> last (x # b) = last (x # w)"
        using p(2) Cons by (simp add: simple_path_def)
      then show ?thesis by auto
    next
      case False
      have "simple_path g x (x # p) \<and> last (x # p) = last (x # w)"
        using False dp wp e hp pne p(2) Cons by (simp add: simple_path_def walk_Cons)
      then show ?thesis by auto
    qed
  qed
qed

lemma expand_iff:
  "c \<in> set (expand g p) = (\<exists>n. c = p @ [n] \<and> edge g (last p) n \<and> n \<notin> set p)"
  unfolding expand_def edge_def by (auto simp: contains_set)

lemma expand_simple:
  "simple_path g s p \<Longrightarrow> c \<in> set (expand g p) \<Longrightarrow> simple_path g s c \<and> length c = Suc (length p)"
  unfolding expand_iff simple_path_def by (auto simp: walk_snoc)

lemma expand_prefix:
  assumes "simple_path g s (p @ r)" "p \<noteq> []" "r \<noteq> []"
  shows "p @ [hd r] \<in> set (expand g p)"
proof -
  from assms have "edge g (last p) (hd r)"
    unfolding simple_path_def by (auto intro: walk_append_edge)
  moreover from assms have "hd r \<notin> set p"
    unfolding simple_path_def by (cases r) auto
  ultimately show ?thesis unfolding expand_iff by blast
qed

lemma expand_nonempty: "c \<in> set (expand g p) \<Longrightarrow> c \<noteq> []"
  by (auto simp: expand_def)

lemma sorted_const: "(\<And>x. x \<in> set xs \<Longrightarrow> x = (c::nat)) \<Longrightarrow> sorted xs"
  by (induction xs) auto

lemma queue_ok_step:
  assumes "queue_ok g s (p # q)"
  shows "queue_ok g s (q @ expand g p)"
proof -
  from assms have sp: "simple_path g s p" and all: "\<forall>p' \<in> set q. simple_path g s p'"
    and srt: "sorted (map length (p # q))" and bnd: "\<forall>p' \<in> set q. length p' \<le> Suc (length p)"
    unfolding queue_ok_def by auto
  have ex: "\<And>c. c \<in> set (expand g p) \<Longrightarrow> simple_path g s c \<and> length c = Suc (length p)"
    using expand_simple [OF sp] by blast
  have lo: "\<forall>p' \<in> set q. length p \<le> length p'" using srt by auto
  have 1: "\<forall>p' \<in> set (q @ expand g p). simple_path g s p'" using all ex by auto
  have "sorted (map length (expand g p))"
    by (rule sorted_const [where c = "Suc (length p)"]) (use ex in auto)
  then have 2: "sorted (map length (q @ expand g p))"
    using srt bnd ex by (auto simp: sorted_append)
  have 3: "\<forall>p' \<in> set (q @ expand g p). length p' \<le> Suc (length (hd (q @ expand g p)))"
  proof (cases q)
    case Nil
    then show ?thesis using ex by (cases "expand g p") auto
  next
    case (Cons a q')
    then have "length p \<le> length a" using lo by simp
    then show ?thesis using Cons bnd ex by auto
  qed
  show ?thesis unfolding queue_ok_def using 1 2 3 by blast
qed

lemma coversI: "p \<in> set q \<Longrightarrow> w = p @ r \<Longrightarrow> covers q w"
  unfolding covers_def by blast

lemma covers_step:
  assumes w: "simple_path g s w" "last w \<in> set t" and c: "covers (p # q) w"
    and p: "p \<noteq> []" "last p \<notin> set t"
  shows "covers (q @ expand g p) w"
proof -
  from c obtain p' r where p': "p' \<in> set (p # q)" and r: "w = p' @ r"
    unfolding covers_def by blast
  show ?thesis
  proof (cases "p' = p")
    case True
    have "r \<noteq> []"
    proof
      assume "r = []"
      with r True have "w = p" by simp
      with w(2) p(2) show False by simp
    qed
    have "simple_path g s (p @ r)" using w(1) unfolding r True .
    then have "p @ [hd r] \<in> set (expand g p)" using p(1) \<open>r \<noteq> []\<close> by (rule expand_prefix)
    then have 1: "p @ [hd r] \<in> set (q @ expand g p)" by simp
    have "hd r # tl r = r" using \<open>r \<noteq> []\<close> by (rule hd_Cons_tl)
    then have 2: "w = (p @ [hd r]) @ tl r" unfolding r True by simp
    from 1 2 show ?thesis by (rule coversI)
  next
    case False
    with p' have "p' \<in> set (q @ expand g p)" by simp
    then show ?thesis using r by (rule coversI)
  qed
qed

lemma bfs_sound:
  "\<forall>p \<in> set q. simple_path g s p \<Longrightarrow> bfs g t q = Inr p \<Longrightarrow> simple_path g s p \<and> last p \<in> set t"
proof (induction g t q rule: bfs.induct)
  case (3 g toIDs v va q)
  show ?case
  proof (cases "contains toIDs (last (v # va))")
    case True
    with 3 show ?thesis by (auto simp: contains_set)
  next
    case False
    with 3 have "\<forall>p' \<in> set (q @ expand g (v # va)). simple_path g s p'"
      using expand_simple [of g s "v # va"] by auto
    with 3 False show ?thesis by simp
  qed
qed simp_all

lemma bfs_minimal:
  "queue_ok g s q \<Longrightarrow> bfs g t q = Inr p \<Longrightarrow> simple_path g s w \<Longrightarrow> last w \<in> set t \<Longrightarrow>
   covers q w \<Longrightarrow> length p \<le> length w"
proof (induction g t q rule: bfs.induct)
  case (3 g toIDs v va q)
  show ?case
  proof (cases "contains toIDs (last (v # va))")
    case True
    with 3 have p: "p = v # va" by simp
    from 3 obtain p' r where "p' \<in> set ((v # va) # q)" "w = p' @ r" unfolding covers_def by blast
    moreover from 3 have "\<forall>p' \<in> set ((v # va) # q). length (v # va) \<le> length p'"
      unfolding queue_ok_def by auto
    ultimately show ?thesis unfolding p by fastforce
  next
    case False
    from False 3 have "covers (q @ expand g (v # va)) w"
      by (intro covers_step [where t = toIDs]) (auto simp: contains_set)
    with 3 False show ?thesis by (simp add: queue_ok_step)
  qed
qed (simp_all add: covers_def)

lemma bfs_finds:
  "\<forall>p \<in> set q. p \<noteq> [] \<Longrightarrow> simple_path g s w \<Longrightarrow> last w \<in> set t \<Longrightarrow> covers q w \<Longrightarrow>
   \<exists>p. bfs g t q = Inr p"
proof (induction g t q rule: bfs.induct)
  case (1 g toIDs)
  then show ?case by (simp add: covers_def)
next
  case (2 g toIDs q)
  then show ?case by simp
next
  case (3 g toIDs v va q)
  show ?case
  proof (cases "contains toIDs (last (v # va))")
    case True
    then show ?thesis by simp
  next
    case False
    then have "last (v # va) \<notin> set toIDs" by (simp add: contains_set)
    with "3.prems" have "covers (q @ expand g (v # va)) w"
      by (intro covers_step [where t = toIDs and s = s]) simp_all
    moreover have "\<forall>p \<in> set (q @ expand g (v # va)). p \<noteq> []"
      using "3.prems"(1) expand_nonempty [of _ g "v # va"] by auto
    ultimately have "\<exists>p. bfs g toIDs (q @ expand g (v # va)) = Inr p"
      using "3.IH" [OF False] "3.prems"(2,3) by blast
    with False show ?thesis by simp
  qed
qed

lemma bfs_result:
  "\<forall>p \<in> set q. p \<noteq> [] \<Longrightarrow> (\<exists>p. bfs g t q = Inr p) \<or> bfs g t q = Inl ErrNoPath"
proof (induction g t q rule: bfs.induct)
  case (1 g toIDs)
  then show ?case by simp
next
  case (2 g toIDs q)
  then show ?case by simp
next
  case (3 g toIDs v va q)
  show ?case
  proof (cases "contains toIDs (last (v # va))")
    case True
    then show ?thesis by simp
  next
    case False
    have "\<forall>p \<in> set (q @ expand g (v # va)). p \<noteq> []"
      using "3.prems"(1) expand_nonempty [of _ g "v # va"] by auto
    with "3.IH" [OF False] False show ?thesis by simp
  qed
qed

lemma bfs_single:
  assumes "bfs g t [[fid]] = Inr p"
  shows "(length p = 1) = (fid \<in> set t)"
proof (cases "fid \<in> set t")
  case True
  with assms show ?thesis by (auto simp: contains_set)
next
  case False
  have "simple_path g fid p \<and> last p \<in> set t"
    by (rule bfs_sound [OF _ assms]) (simp add: simple_path_def)
  then have "p \<noteq> []" "hd p = fid" "last p \<in> set t" unfolding simple_path_def by auto
  with False have "length p \<noteq> 1" by (cases p) auto
  with False show ?thesis by simp
qed

section \<open>The route graph and the result of \<^verbatim>\<open>route\<close>\<close>

lemma graph_get_addRow:
  "graph_get (addRow g r) k = (if k = fst r then graph_get g k @ [snd r] else graph_get g k)"
  unfolding addRow_def graph_get_def graph_has_def Let_def
  by (auto simp: update_conv' split: option.splits)

lemma graph_has_addRow:
  "graph_has (addRow g r) k = (graph_has g k \<or> k = fst r \<or> k = snd r)"
  unfolding addRow_def graph_has_def Let_def
  by (auto simp: update_conv' split: option.splits)

lemma buildGraph_Nil: "buildGraph fid [] = [(fid, [])]"
  by (simp add: buildGraph_def)

lemma buildGraph_snoc: "buildGraph fid (rows @ [r]) = addRow (buildGraph fid rows) r"
  by (simp add: buildGraph_def)

lemma graph_get_buildGraph:
  "graph_get (buildGraph fid rows) k = map snd (filter (\<lambda>r. fst r = k) rows)"
proof (induction rows rule: rev_induct)
  case Nil
  show ?case by (simp add: buildGraph_Nil graph_get_def)
next
  case (snoc r rows)
  then show ?case by (auto simp: buildGraph_snoc graph_get_addRow)
qed

lemma graph_has_buildGraph:
  "graph_has (buildGraph fid rows) k = (k = fid \<or> k \<in> fst ` set rows \<or> k \<in> snd ` set rows)"
proof (induction rows rule: rev_induct)
  case Nil
  show ?case by (simp add: buildGraph_Nil graph_has_def)
next
  case (snoc r rows)
  then show ?case by (simp add: buildGraph_snoc graph_has_addRow) blast
qed

lemma edge_buildGraph: "edge (buildGraph fid rows) a b = ((a, b) \<in> set rows)"
  unfolding edge_def graph_get_buildGraph by force

lemma rows_of_route:
  "((a, b) \<in> (\<lambda>l. (fst l, snd (snd l))) ` {l \<in> set ls. fst (snd l) = r}) =
     ((a, r, b) \<in> set ls)"
  by force

lemma edge_route_graph:
  "edge (route_graph st fid) a b =
     (\<exists>r. stored_route st fid = Some r \<and> (a, r, b) \<in> set (segment_links st))"
  unfolding route_graph_def edge_buildGraph routeRows_def stored_route_def
  by (cases "find (\<lambda>s. seg_id s = fid) (segments st)") (simp_all add: rows_of_route)

lemma graph_has_route_graph: "graph_has (route_graph st fid) k = graph_node st fid k"
proof (cases "find (\<lambda>s. seg_id s = fid) (segments st)")
  case None
  then show ?thesis
    by (simp add: route_graph_def graph_has_buildGraph routeRows_def graph_node_def
        stored_route_def)
next
  case (Some s)
  have "(k \<in> fst ` set (routeRows st fid) \<or> k \<in> snd ` set (routeRows st fid)) =
        (\<exists>l \<in> set (segment_links st). fst (snd l) = routeID s \<and> (fst l = k \<or> snd (snd l) = k))"
    using Some unfolding routeRows_def by (auto simp: image_iff) force+
  with Some show ?thesis
    by (simp add: route_graph_def graph_has_buildGraph graph_node_def stored_route_def)
qed

lemma reorder_eq:
  "i \<le> length segs \<Longrightarrow> reorder m path i segs =
     (if i + length path \<le> length segs
      then Inr (take i segs @ map (map_get m) path @ drop (i + length path) segs)
      else Inl ErrIndexOutOfRange)"
proof (induction path arbitrary: i segs)
  case Nil
  then show ?case by simp
next
  case (Cons k path)
  show ?case
  proof (cases "i < length segs")
    case True
    then have "take (Suc i) (segs[i := map_get m k]) = take i segs @ [map_get m k]"
      by (simp add: take_Suc_conv_app_nth)
    with True show ?thesis by (simp add: Cons.IH)
  next
    case False
    then show ?thesis by simp
  qed
qed

lemma segsByID_snoc: "segsByID (segs @ [s]) = (segsByID segs)(seg_id s \<mapsto> s)"
  by (simp add: segsByID_def)

lemma segsByID_distinct:
  "distinct (map seg_id segs) \<Longrightarrow> s \<in> set segs \<Longrightarrow> segsByID segs (seg_id s) = Some s"
proof (induction segs rule: rev_induct)
  case Nil
  then show ?case by simp
next
  case (snoc x xs)
  show ?case
  proof (cases "s = x")
    case True
    then show ?thesis by (simp add: segsByID_snoc)
  next
    case False
    with snoc.prems have "s \<in> set xs" and "seg_id x \<noteq> seg_id s" by auto
    with snoc show ?thesis by (simp add: segsByID_snoc)
  qed
qed

lemma filter_ids:
  "path \<noteq> [] \<Longrightarrow> filterSegments st (no_filter\<lparr>ids := path\<rparr>) =
     filter (\<lambda>s. seg_id s \<in> set path) (segments st)"
  unfolding filterSegments_def filter_where_def no_filter_def
  by (auto simp: list_ex_iff intro!: filter_cong)

lemma distinct_filter_ids:
  assumes "distinct (map seg_id tbl)" "distinct path"
    and "length path \<le> length (filter (\<lambda>s. seg_id s \<in> set path) tbl)"
  shows "set path \<subseteq> seg_id ` set tbl \<and> length (filter (\<lambda>s. seg_id s \<in> set path) tbl) = length path"
proof -
  let ?segs = "filter (\<lambda>s. seg_id s \<in> set path) tbl"
  have d: "distinct (map seg_id ?segs)" using assms(1) by (simp add: distinct_map_filter)
  have sub: "set (map seg_id ?segs) \<subseteq> set path" by auto
  have "length ?segs = card (set (map seg_id ?segs))" using d distinct_card by fastforce
  also have "\<dots> \<le> card (set path)" using sub by (intro card_mono) auto
  also have "\<dots> = length path" using assms(2) by (simp add: distinct_card)
  finally have le: "length ?segs \<le> length path" .
  with assms(3) have eq: "length ?segs = length path" by simp
  have "card (set (map seg_id ?segs)) = card (set path)"
    using eq d assms(2) distinct_card [of "map seg_id ?segs"] distinct_card [of path] by simp
  with sub have "set (map seg_id ?segs) = set path" by (intro card_subset_eq) auto
  then have "set path \<subseteq> seg_id ` set tbl" by auto
  with eq show ?thesis by simp
qed

text \<open>What a successful call went through.\<close>

lemma route_Inr:
  assumes ok: "store_ok st" and r: "route st fromSegments toSegments = Inr rs"
  defines "fid \<equiv> seg_id (hd fromSegments)"
  shows "fromSegments \<noteq> [] \<and> toSegments \<noteq> [] \<and>
         (\<forall>t \<in> set toSegments. graph_has (route_graph st fid) (seg_id t)) \<and>
         bfs (route_graph st fid) (map seg_id toSegments) [[fid]] = Inr (map seg_id rs) \<and>
         set rs \<subseteq> set (segments st)"
proof -
  let ?g = "route_graph st fid"
  from r have ne: "fromSegments \<noteq> []" "toSegments \<noteq> []"
    unfolding route_def by (auto split: if_splits)
  from r ne have fnd: "find (\<lambda>seg. \<not> graph_has ?g (seg_id seg)) toSegments = None"
    unfolding route_def fid_def by (auto simp: Let_def split: option.splits)
  from r ne fnd obtain path where
    path: "bfs ?g (map seg_id toSegments) [[fid]] = Inr path" and
    re: "reorder (segsByID (filterSegments st (no_filter\<lparr>ids := path\<rparr>))) path 0
           (filterSegments st (no_filter\<lparr>ids := path\<rparr>)) = Inr rs"
    unfolding route_def fid_def by (auto simp: Let_def split: sum.splits)
  have sp: "simple_path ?g fid path"
    using bfs_sound [OF _ path, of fid] by (simp add: simple_path_def)
  then have pne: "path \<noteq> []" and dp: "distinct path" unfolding simple_path_def by auto
  let ?segs = "filter (\<lambda>s. seg_id s \<in> set path) (segments st)"
  have fs: "filterSegments st (no_filter\<lparr>ids := path\<rparr>) = ?segs" using pne by (rule filter_ids)
  from re have len: "length path \<le> length ?segs" and
    rs: "rs = map (map_get (segsByID ?segs)) path @ drop (length path) ?segs"
    unfolding fs by (auto simp: reorder_eq split: if_splits)
  from ok have dt: "distinct (map seg_id (segments st))" unfolding store_ok_def .
  from distinct_filter_ids [OF dt dp len]
  have sub: "set path \<subseteq> seg_id ` set (segments st)" and eq: "length ?segs = length path" by auto
  from rs eq have rs': "rs = map (map_get (segsByID ?segs)) path" by simp
  have ds: "distinct (map seg_id ?segs)" using dt by (simp add: distinct_map_filter)
  have each: "map_get (segsByID ?segs) k \<in> set (segments st) \<and> seg_id (map_get (segsByID ?segs) k) = k"
    if "k \<in> set path" for k
  proof -
    from that sub obtain s where s: "s \<in> set (segments st)" "seg_id s = k" by auto
    with that have "s \<in> set ?segs" by simp
    from segsByID_distinct [OF ds this] s show ?thesis by (simp add: map_get_def)
  qed
  have "map seg_id rs = path" unfolding rs' using each by (simp add: map_idI)
  moreover have "set rs \<subseteq> set (segments st)" unfolding rs' using each by auto
  moreover have "\<forall>t \<in> set toSegments. graph_has ?g (seg_id t)"
    using fnd by (simp add: find_None_iff)
  ultimately show ?thesis using ne path by simp
qed

lemma route_nonempty: "store_ok st \<Longrightarrow> route st fs ts = Inr rt \<Longrightarrow> rt \<noteq> []"
proof -
  assume ok: "store_ok st" and r: "route st fs ts = Inr rt"
  from route_Inr [OF ok r]
  have b: "bfs (route_graph st (seg_id (hd fs))) (map seg_id ts) [[seg_id (hd fs)]] = Inr (map seg_id rt)"
    by simp
  have "simple_path (route_graph st (seg_id (hd fs))) (seg_id (hd fs)) (map seg_id rt) \<and>
        last (map seg_id rt) \<in> set (map seg_id ts)"
    by (rule bfs_sound [OF _ b]) (simp add: simple_path_def)
  then show ?thesis by (auto simp: simple_path_def)
qed

lemma route_seed: "route st (f # fs) ts = route st [f] ts"
  by (simp add: route_def)

lemma route_failure:
  assumes ts: "ts \<noteq> []"
    and no: "\<not> (\<exists>w. w \<noteq> [] \<and> hd w = seg_id f \<and> walk (route_graph st (seg_id f)) w \<and>
                 last w \<in> seg_id ` set ts)"
  shows "route st (f # fs) ts = Inl ErrNoPath \<or>
         (\<exists>t \<in> set ts. \<not> graph_has (route_graph st (seg_id f)) (seg_id t) \<and>
            route st (f # fs) ts = Inl (ErrToNotInGraph (seg_id t)))"
proof (cases "find (\<lambda>seg. \<not> graph_has (route_graph st (seg_id f)) (seg_id seg)) ts")
  case None
  let ?g = "route_graph st (seg_id f)"
  have "(\<exists>p. bfs ?g (map seg_id ts) [[seg_id f]] = Inr p) \<or>
        bfs ?g (map seg_id ts) [[seg_id f]] = Inl ErrNoPath"
    by (rule bfs_result) simp
  moreover have False if "bfs ?g (map seg_id ts) [[seg_id f]] = Inr p" for p
  proof -
    have "simple_path ?g (seg_id f) p \<and> last p \<in> set (map seg_id ts)"
      by (rule bfs_sound [OF _ that]) (simp add: simple_path_def)
    with no show False by (auto simp: simple_path_def)
  qed
  ultimately have "bfs ?g (map seg_id ts) [[seg_id f]] = Inl ErrNoPath" by blast
  with None ts show ?thesis by (simp add: route_def)
next
  case (Some t)
  then have "t \<in> set ts" and "\<not> graph_has (route_graph st (seg_id f)) (seg_id t)"
    by (auto simp: find_Some_iff)
  moreover from Some ts have "route st (f # fs) ts = Inl (ErrToNotInGraph (seg_id t))"
    by (simp add: route_def)
  ultimately show ?thesis by blast
qed

lemma route_minimal:
  assumes ok: "store_ok st" and r: "route st (f # fs) ts = Inr rs"
    and w: "simple_path (route_graph st (seg_id f)) (seg_id f) w" "last w \<in> seg_id ` set ts"
  shows "length rs \<le> length w"
proof -
  let ?g = "route_graph st (seg_id f)"
  from route_Inr [OF ok r]
  have b: "bfs ?g (map seg_id ts) [[seg_id f]] = Inr (map seg_id rs)" by simp
  have q: "queue_ok ?g (seg_id f) [[seg_id f]]" by (simp add: queue_ok_def simple_path_def)
  from w(1) have "w = [seg_id f] @ tl w" unfolding simple_path_def by (cases w) auto
  then have c: "covers [[seg_id f]] w" by (intro coversI [where p = "[seg_id f]"]) simp_all
  from w(2) have "last w \<in> set (map seg_id ts)" by simp
  from bfs_minimal [OF q b w(1) this c] show ?thesis by simp
qed

lemma route_no_path:
  assumes "route st (f # fs) ts = Inl ErrNoPath"
  shows "\<not> (\<exists>w. w \<noteq> [] \<and> hd w = seg_id f \<and> walk (route_graph st (seg_id f)) w \<and>
               last w \<in> seg_id ` set ts)"
proof
  let ?g = "route_graph st (seg_id f)"
  assume "\<exists>w. w \<noteq> [] \<and> hd w = seg_id f \<and> walk ?g w \<and> last w \<in> seg_id ` set ts"
  then obtain w where w: "w \<noteq> []" "hd w = seg_id f" "walk ?g w" "last w \<in> seg_id ` set ts"
    by blast
  from walk_to_simple_path [OF w(3) w(1)] w(2) w(4)
  obtain p where p: "simple_path ?g (seg_id f) p" "last p \<in> set (map seg_id ts)" by auto
  from p(1) have "p = [seg_id f] @ tl p" unfolding simple_path_def by (cases p) auto
  then have c: "covers [[seg_id f]] p" by (intro coversI [where p = "[seg_id f]"]) simp_all
  have "\<exists>q. bfs ?g (map seg_id ts) [[seg_id f]] = Inr q"
    by (rule bfs_finds [OF _ p c]) simp
  then obtain q where q: "bfs ?g (map seg_id ts) [[seg_id f]] = Inr q" by blast
  from assms have ts: "ts \<noteq> []" by (auto simp: route_def split: if_splits)
  from assms ts have "find (\<lambda>seg. \<not> graph_has ?g (seg_id seg)) ts = None"
    by (auto simp: route_def Let_def split: option.splits)
  with assms ts q have "reorder (segsByID (filterSegments st (no_filter\<lparr>ids := q\<rparr>))) q 0
      (filterSegments st (no_filter\<lparr>ids := q\<rparr>)) = Inl ErrNoPath"
    by (simp add: route_def Let_def)
  then show False by (simp add: reorder_eq split: if_splits)
qed

lemma route_not_in_graph:
  assumes "fromSegments \<noteq> []" "toSegments \<noteq> []"
  shows "(route st fromSegments toSegments = Inl (ErrToNotInGraph i)) =
         (\<exists>t. find (\<lambda>seg. \<not> graph_node st (seg_id (hd fromSegments)) (seg_id seg)) toSegments = Some t
              \<and> i = seg_id t)"
proof (cases "find (\<lambda>seg. \<not> graph_node st (seg_id (hd fromSegments)) (seg_id seg)) toSegments")
  case None
  let ?g = "route_graph st (seg_id (hd fromSegments))"
  let ?b = "bfs ?g (map seg_id toSegments) [[seg_id (hd fromSegments)]]"
  have b: "(\<exists>p. ?b = Inr p) \<or> ?b = Inl ErrNoPath" by (rule bfs_result) simp
  have "route st fromSegments toSegments \<noteq> Inl (ErrToNotInGraph i)"
    using assms None b
    by (auto simp: route_def graph_has_route_graph reorder_eq Let_def split: sum.splits)
  with None show ?thesis by simp
next
  case (Some t)
  with assms show ?thesis
    by (auto simp: route_def graph_has_route_graph Let_def)
qed

section \<open>The table of direction pairs and the two transactions\<close>

lemma key_inj:
  assumes "CHR '' '' \<notin> set a" "CHR '' '' \<notin> set b"
  shows "(c @ CHR '' '' # n = a @ CHR '' '' # b) = (c = a \<and> n = b)"
proof
  assume eq: "c @ CHR '' '' # n = a @ CHR '' '' # b"
  then obtain us where
    "(c = a @ us \<and> us @ CHR '' '' # n = CHR '' '' # b) \<or>
     (c @ us = a \<and> CHR '' '' # n = us @ CHR '' '' # b)"
    by (auto simp: append_eq_append_conv2)
  then show "c = a \<and> n = b"
  proof
    assume h: "c = a @ us \<and> us @ CHR '' '' # n = CHR '' '' # b"
    show ?thesis
    proof (cases us)
      case Nil
      with h show ?thesis by simp
    next
      case (Cons u us')
      with h have "b = us' @ CHR '' '' # n" by simp
      with assms(2) show ?thesis by simp
    qed
  next
    assume h: "c @ us = a \<and> CHR '' '' # n = us @ CHR '' '' # b"
    show ?thesis
    proof (cases us)
      case Nil
      with h show ?thesis by simp
    next
      case (Cons u us')
      with h have "u = CHR '' ''" and "a = c @ u # us'" by auto
      with assms(1) show ?thesis by simp
    qed
  qed
qed simp

lemma key_eqs:
  "(c @ '' '' @ n = ''BOTH BOTH'') = (c = ''BOTH'' \<and> n = ''BOTH'')"
  "(c @ '' '' @ n = ''BOTH FOTD'') = (c = ''BOTH'' \<and> n = ''FOTD'')"
  "(c @ '' '' @ n = ''BOTH FDTO'') = (c = ''BOTH'' \<and> n = ''FDTO'')"
  "(c @ '' '' @ n = ''FOTD FOTD'') = (c = ''FOTD'' \<and> n = ''FOTD'')"
  "(c @ '' '' @ n = ''FOTD BOTH'') = (c = ''FOTD'' \<and> n = ''BOTH'')"
  "(c @ '' '' @ n = ''FDTO BOTH'') = (c = ''FDTO'' \<and> n = ''BOTH'')"
  using key_inj [of "''BOTH''" "''BOTH''" c n] key_inj [of "''BOTH''" "''FOTD''" c n]
    key_inj [of "''BOTH''" "''FDTO''" c n] key_inj [of "''FOTD''" "''FOTD''" c n]
    key_inj [of "''FOTD''" "''BOTH''" c n] key_inj [of "''FDTO''" "''BOTH''" c n]
  by simp_all

lemma direction_switch_table:
  "direction_switch distance cur next =
     (if enumerated_pair (direction cur) (direction next)
      then Inr (table_edge distance cur next)
      else Inl (ErrUnknownDirectionPair (direction cur) (direction next)
                  (seg_id cur) (seg_id next)))"
  unfolding direction_switch_def Let_def key_eqs enumerated_pair_def table_edge_def
  by auto

lemma matches_loop_table:
  "matches_loop distance cur segs out =
     (case first_unknown segs cur of
        Some next \<Rightarrow> Inl (ErrUnknownDirectionPair (direction cur) (direction next)
                           (seg_id cur) (seg_id next))
      | None \<Rightarrow> Inr (out @ filter (\<lambda>next. seg_id next \<noteq> seg_id cur \<and>
                                     table_edge distance cur next) segs))"
proof (induction segs arbitrary: out)
  case Nil
  show ?case by (simp add: first_unknown_def)
next
  case (Cons nx segs)
  have IH: "matches_loop distance cur segs out' =
     (case first_unknown segs cur of
        Some next \<Rightarrow> Inl (ErrUnknownDirectionPair (direction cur) (direction next)
                           (seg_id cur) (seg_id next))
      | None \<Rightarrow> Inr (out' @ filter (\<lambda>next. seg_id next \<noteq> seg_id cur \<and>
                                     table_edge distance cur next) segs))" for out'
    by (rule Cons.IH)
  show ?case
  proof (cases "seg_id nx = seg_id cur")
    case True
    then show ?thesis by (simp add: IH first_unknown_def split: option.splits)
  next
    case False
    then have ne: "seg_id cur \<noteq> seg_id nx" by simp
    show ?thesis
    proof (cases "enumerated_pair (direction cur) (direction nx)")
      case True
      with False ne show ?thesis
        by (simp add: IH direction_switch_table first_unknown_def split: option.splits)
    next
      case no: False
      with False ne show ?thesis
        by (simp add: direction_switch_table first_unknown_def)
    qed
  qed
qed

lemma first_unknown_Some:
  "first_unknown segs cur = Some nx \<Longrightarrow>
     nx \<in> set segs \<and> seg_id nx \<noteq> seg_id cur \<and> \<not> enumerated_pair (direction cur) (direction nx)"
  unfolding first_unknown_def by (auto simp: find_Some_iff)

lemma first_unknown_None:
  "(first_unknown segs cur = None) =
     (\<forall>nx \<in> set segs. seg_id nx = seg_id cur \<or> enumerated_pair (direction cur) (direction nx))"
  unfolding first_unknown_def by (auto simp: find_None_iff)

lemma matches_table':
  "matches distance segs cur =
     (case first_unknown segs cur of
        Some nx \<Rightarrow> Inl (ErrUnknownDirectionPair (direction cur) (direction nx)
                         (seg_id cur) (seg_id nx))
      | None \<Rightarrow> Inr (filter (\<lambda>nx. seg_id nx \<noteq> seg_id cur \<and> table_edge distance cur nx) segs))"
  by (simp add: matches_def matches_loop_table split: option.splits)

lemma routeLinkRows_Inr:
  "routeLinkRows distance rsegs todo = Inr rows \<Longrightarrow>
     (\<forall>cur \<in> set todo. first_unknown rsegs cur = None) \<and>
     set rows = {(seg_id cur, routeID cur, seg_id nx) | cur nx.
        cur \<in> set todo \<and> nx \<in> set rsegs \<and> seg_id nx \<noteq> seg_id cur \<and>
        table_edge distance cur nx}"
proof (induction todo arbitrary: rows)
  case Nil
  then show ?case by simp
next
  case (Cons seg todo)
  from Cons.prems obtain rows' where fu: "first_unknown rsegs seg = None"
    and r': "routeLinkRows distance rsegs todo = Inr rows'"
    and rows: "rows = map (\<lambda>nx. (seg_id seg, routeID seg, seg_id nx))
                 (filter (\<lambda>nx. seg_id nx \<noteq> seg_id seg \<and> table_edge distance seg nx) rsegs) @ rows'"
    by (auto simp: matches_table' split: option.splits sum.splits)
  from Cons.IH [OF r'] have a: "\<forall>cur \<in> set todo. first_unknown rsegs cur = None"
    and s: "set rows' = {(seg_id cur, routeID cur, seg_id nx) | cur nx.
        cur \<in> set todo \<and> nx \<in> set rsegs \<and> seg_id nx \<noteq> seg_id cur \<and>
        table_edge distance cur nx}" by auto
  have "set rows = {(seg_id cur, routeID cur, seg_id nx) | cur nx.
        cur \<in> set (seg # todo) \<and> nx \<in> set rsegs \<and> seg_id nx \<noteq> seg_id cur \<and>
        table_edge distance cur nx}"
    unfolding rows set_append s by auto
  with fu a show ?case by simp
qed

lemma routeLinkRows_Inl:
  "routeLinkRows distance rsegs todo = Inl e \<Longrightarrow>
     \<exists>cur \<in> set todo. \<exists>nx. first_unknown rsegs cur = Some nx \<and>
        e = ErrUnknownDirectionPair (direction cur) (direction nx) (seg_id cur) (seg_id nx)"
proof (induction todo)
  case Nil
  then show ?case by simp
next
  case (Cons seg todo)
  then show ?case
    by (auto simp: matches_table' split: option.splits sum.splits)
qed

lemma linkRows_Inr:
  "linkRows distance segs rs = Inr rows \<Longrightarrow>
     (\<forall>r \<in> set rs. \<forall>cur \<in> set (routeSegments segs r).
         first_unknown (routeSegments segs r) cur = None) \<and>
     set rows = {(seg_id cur, routeID cur, seg_id nx) | cur nx.
        routeID cur \<in> set rs \<and> cur \<in> set segs \<and> nx \<in> set segs \<and>
        routeID nx = routeID cur \<and> seg_id nx \<noteq> seg_id cur \<and> table_edge distance cur nx}"
proof (induction rs arbitrary: rows)
  case Nil
  then show ?case by simp
next
  case (Cons r rs)
  from Cons.prems obtain rows1 rows2 where
    1: "routeLinkRows distance (routeSegments segs r) (routeSegments segs r) = Inr rows1"
    and 2: "linkRows distance segs rs = Inr rows2" and rows: "rows = rows1 @ rows2"
    by (auto split: sum.splits)
  from routeLinkRows_Inr [OF 1]
  have a1: "\<forall>cur \<in> set (routeSegments segs r). first_unknown (routeSegments segs r) cur = None"
    and s1: "set rows1 = {(seg_id cur, routeID cur, seg_id nx) | cur nx.
        cur \<in> set (routeSegments segs r) \<and> nx \<in> set (routeSegments segs r) \<and>
        seg_id nx \<noteq> seg_id cur \<and> table_edge distance cur nx}" by auto
  from Cons.IH [OF 2]
  have a2: "\<forall>r \<in> set rs. \<forall>cur \<in> set (routeSegments segs r).
         first_unknown (routeSegments segs r) cur = None"
    and s2: "set rows2 = {(seg_id cur, routeID cur, seg_id nx) | cur nx.
        routeID cur \<in> set rs \<and> cur \<in> set segs \<and> nx \<in> set segs \<and>
        routeID nx = routeID cur \<and> seg_id nx \<noteq> seg_id cur \<and> table_edge distance cur nx}"
    by auto
  have s1': "set rows1 = {(seg_id cur, routeID cur, seg_id nx) | cur nx.
        routeID cur = r \<and> cur \<in> set segs \<and> nx \<in> set segs \<and>
        routeID nx = routeID cur \<and> seg_id nx \<noteq> seg_id cur \<and> table_edge distance cur nx}"
    unfolding s1 routeSegments_def by auto
  have "set rows = {(seg_id cur, routeID cur, seg_id nx) | cur nx.
        routeID cur \<in> set (r # rs) \<and> cur \<in> set segs \<and> nx \<in> set segs \<and>
        routeID nx = routeID cur \<and> seg_id nx \<noteq> seg_id cur \<and> table_edge distance cur nx}"
    unfolding rows set_append s1' s2 by auto
  with a1 a2 show ?case by simp
qed

lemma linkRows_Inl:
  "linkRows distance segs rs = Inl e \<Longrightarrow>
     \<exists>r \<in> set rs. \<exists>cur \<in> set (routeSegments segs r). \<exists>nx.
        first_unknown (routeSegments segs r) cur = Some nx \<and>
        e = ErrUnknownDirectionPair (direction cur) (direction nx) (seg_id cur) (seg_id nx)"
proof (induction rs)
  case Nil
  then show ?case by simp
next
  case (Cons r rs)
  show ?case
  proof (cases "routeLinkRows distance (routeSegments segs r) (routeSegments segs r)")
    case (Inl e')
    with Cons.prems have "e' = e" by simp
    with routeLinkRows_Inl [OF Inl] show ?thesis by auto
  next
    case (Inr rows1)
    with Cons.prems have "linkRows distance segs rs = Inl e" by (auto split: sum.splits)
    from Cons.IH [OF this] show ?thesis by auto
  qed
qed

lemma linkRows_error:
  "linkRows distance segs rs = Inl e \<Longrightarrow> \<exists>a b i j. e = ErrUnknownDirectionPair a b i j"
  by (drule linkRows_Inl) blast

lemma linkRows_batch:
  "(unknown_pair segs \<longrightarrow>
      (\<exists>a b i j. linkRows distance segs (remdups (map routeID segs))
         = Inl (ErrUnknownDirectionPair a b i j))) \<and>
   (\<not> unknown_pair segs \<longrightarrow>
      (\<exists>rows. linkRows distance segs (remdups (map routeID segs)) = Inr rows \<and>
         set rows = table_rows distance segs))"
proof (cases "linkRows distance segs (remdups (map routeID segs))")
  case (Inl e)
  from linkRows_Inl [OF this] obtain r cur nx where
    cur: "cur \<in> set (routeSegments segs r)" and
    fu: "first_unknown (routeSegments segs r) cur = Some nx" and
    e: "e = ErrUnknownDirectionPair (direction cur) (direction nx) (seg_id cur) (seg_id nx)"
    by blast
  from first_unknown_Some [OF fu] cur have "unknown_pair segs"
    unfolding unknown_pair_def routeSegments_def by auto
  with Inl e show ?thesis by simp
next
  case (Inr rows)
  from linkRows_Inr [OF this]
  have a: "\<forall>r \<in> set (remdups (map routeID segs)). \<forall>cur \<in> set (routeSegments segs r).
         first_unknown (routeSegments segs r) cur = None"
    and s: "set rows = {(seg_id cur, routeID cur, seg_id nx) | cur nx.
        routeID cur \<in> set (remdups (map routeID segs)) \<and> cur \<in> set segs \<and> nx \<in> set segs \<and>
        routeID nx = routeID cur \<and> seg_id nx \<noteq> seg_id cur \<and> table_edge distance cur nx}"
    by auto
  have "\<not> unknown_pair segs"
  proof
    assume "unknown_pair segs"
    then obtain cur nx where c: "cur \<in> set segs" "nx \<in> set segs" "routeID nx = routeID cur"
      "seg_id nx \<noteq> seg_id cur" "\<not> enumerated_pair (direction cur) (direction nx)"
      unfolding unknown_pair_def by blast
    then have "cur \<in> set (routeSegments segs (routeID cur))"
      "nx \<in> set (routeSegments segs (routeID cur))" unfolding routeSegments_def by auto
    moreover from c(1) have "routeID cur \<in> set (remdups (map routeID segs))" by simp
    ultimately have "seg_id nx = seg_id cur \<or> enumerated_pair (direction cur) (direction nx)"
      using a unfolding first_unknown_None by blast
    with c show False by simp
  qed
  moreover have "set rows = table_rows distance segs"
    unfolding s table_rows_def by auto
  ultimately show ?thesis using Inr by simp
qed

lemma distinct_map_insort_key:
  "distinct (map f (insort_key f x xs)) = (f x \<notin> f ` set xs \<and> distinct (map f xs))"
  by (induction xs) (auto simp: set_insort_key)

lemma insertSegments_Inr:
  "insertSegments segs tbl = Inr tbl' \<Longrightarrow>
     set tbl' = set tbl \<union> set segs \<and> (distinct (map seg_id tbl) \<longrightarrow> distinct (map seg_id tbl'))"
proof (induction segs arbitrary: tbl)
  case Nil
  then show ?case by simp
next
  case (Cons seg segs)
  from Cons.prems have new: "seg_id seg \<notin> seg_id ` set tbl"
    and r: "insertSegments segs (insort_key seg_id seg tbl) = Inr tbl'"
    by (auto split: if_splits)
  from new have "distinct (map seg_id (insort_key seg_id seg tbl))" if "distinct (map seg_id tbl)"
    using that by (simp add: distinct_map_insort_key)
  with Cons.IH [OF r] show ?case by (auto simp: set_insort_key)
qed

lemma insertSegments_Inl:
  "insertSegments segs tbl = Inl e \<Longrightarrow> \<exists>seg \<in> set segs. e = ErrConstraint (seg_id seg)"
  by (induction segs arbitrary: tbl) (auto split: if_splits)

lemma loadSegments_cases:
  "(\<exists>i. loadSegments distance batch st = (Some (ErrConstraint i), st)) \<or>
   (\<exists>tbl. insertSegments batch (segments st) = Inr tbl \<and>
      ((\<exists>a b i j. loadSegments distance batch st =
           (Some (ErrUnknownDirectionPair a b i j), st\<lparr>segments := tbl\<rparr>)) \<or>
       (\<exists>rows. linkRows distance batch (remdups (map routeID batch)) = Inr rows \<and>
           (loadSegments distance batch st =
              (Some ErrIndexExists, st\<lparr>segments := tbl, segment_links := segment_links st @ rows\<rparr>) \<or>
            loadSegments distance batch st =
              (None, st\<lparr>segments := tbl, segment_links := segment_links st @ rows,
                         links_index := True\<rparr>)))))"
proof (cases "insertSegments batch (segments st)")
  case (Inl e)
  with insertSegments_Inl [OF Inl] show ?thesis by (auto simp: loadSegments_def)
next
  case (Inr tbl)
  show ?thesis
  proof (cases "linkRows distance batch (remdups (map routeID batch))")
    case (Inl e)
    with linkRows_error [OF Inl] Inr show ?thesis by (auto simp: loadSegments_def)
  next
    case r: (Inr rows)
    with Inr show ?thesis by (auto simp: loadSegments_def Let_def)
  qed
qed

section \<open>The stages of the pipeline\<close>

lemma trim_nonempty: "rt \<noteq> [] \<Longrightarrow> trim sids rt \<noteq> []"
  by (induction sids rt rule: trim.induct) auto

lemma contains_startIDs:
  "contains (startIDs ss) k = (k \<in> seg_id ` set ss \<or> (k = 0 \<and> ss \<noteq> []))"
  by (auto simp: startIDs_def contains_set)

text \<open>Where no segment of the path has the id 0, or a start candidate has it, the zeros of
  \<open>startIDs\<close> change nothing: the path is trimmed as with the ids of the start candidates.\<close>

lemma trim_startIDs:
  "sids = startIDs ss \<Longrightarrow> (\<forall>b \<in> set rt. seg_id b = 0 \<longrightarrow> 0 \<in> seg_id ` set ss) \<Longrightarrow>
   trim sids rt = trim (map seg_id ss) rt"
proof (induction sids rt rule: trim.induct)
  case (1 sids a b c rest)
  have "contains (startIDs ss) (seg_id b) = (seg_id b \<in> seg_id ` set ss)"
    unfolding contains_startIDs using "1.prems"(2) by auto
  then have c: "contains sids (seg_id b) = contains (map seg_id ss) (seg_id b)"
    using "1.prems"(1) by (simp add: contains_set)
  show ?case
  proof (cases "contains sids (seg_id b)")
    case True
    with "1.IH" [OF True "1.prems"(1)] "1.prems"(2) c show ?thesis by simp
  next
    case False
    with c show ?thesis by simp
  qed
qed simp_all

lemma longest_Inr:
  "longest st r0 ends path = Inr res \<Longrightarrow>
     length path \<le> length res \<and>
     (\<forall>e \<in> set ends. \<exists>c. route st [r0] [e] = Inr c \<and> length c \<le> length res) \<and>
     (res = path \<or> (\<exists>e \<in> set ends. route st [r0] [e] = Inr res))"
proof (induction ends arbitrary: path)
  case Nil
  then show ?case by simp
next
  case (Cons e ends)
  from Cons.prems obtain c where c: "route st [r0] [e] = Inr c"
    and l: "longest st r0 ends (if length c > length path then c else path) = Inr res"
    by (auto split: sum.splits)
  from Cons.IH [OF l] c show ?case by (auto split: if_splits)
qed

lemma longest_Inl:
  "(longest st r0 ends path = Inl err) =
     (\<exists>pre e post. ends = pre @ e # post \<and> route st [r0] [e] = Inl err \<and>
        (\<forall>x \<in> set pre. \<exists>c. route st [r0] [x] = Inr c))"
proof (induction ends arbitrary: path)
  case Nil
  then show ?case by simp
next
  case (Cons e ends)
  show ?case
  proof (cases "route st [r0] [e]")
    case (Inl a)
    show ?thesis
    proof
      assume "longest st r0 (e # ends) path = Inl err"
      with Inl have "a = err" by simp
      with Inl have "e # ends = [] @ e # ends \<and> route st [r0] [e] = Inl err \<and>
        (\<forall>x \<in> set []. \<exists>c. route st [r0] [x] = Inr c)" by simp
      then show "\<exists>pre e' post. e # ends = pre @ e' # post \<and> route st [r0] [e'] = Inl err \<and>
        (\<forall>x \<in> set pre. \<exists>c. route st [r0] [x] = Inr c)" by blast
    next
      assume "\<exists>pre e' post. e # ends = pre @ e' # post \<and> route st [r0] [e'] = Inl err \<and>
        (\<forall>x \<in> set pre. \<exists>c. route st [r0] [x] = Inr c)"
      then obtain pre e' post where p: "e # ends = pre @ e' # post" "route st [r0] [e'] = Inl err"
        "\<forall>x \<in> set pre. \<exists>c. route st [r0] [x] = Inr c" by blast
      have "pre = []"
      proof (cases pre)
        case (Cons x xs)
        with p(1) have "x = e" by simp
        with Cons p(3) Inl show ?thesis by auto
      qed simp
      with p Inl show "longest st r0 (e # ends) path = Inl err" by simp
    qed
  next
    case (Inr c)
    let ?path = "if length c > length path then c else path"
    have "(longest st r0 (e # ends) path = Inl err) = (longest st r0 ends ?path = Inl err)"
      using Inr by simp
    also have "\<dots> = (\<exists>pre e' post. ends = pre @ e' # post \<and> route st [r0] [e'] = Inl err \<and>
        (\<forall>x \<in> set pre. \<exists>c. route st [r0] [x] = Inr c))" by (rule Cons.IH)
    also have "\<dots> = (\<exists>pre e' post. e # ends = pre @ e' # post \<and> route st [r0] [e'] = Inl err \<and>
        (\<forall>x \<in> set pre. \<exists>c. route st [r0] [x] = Inr c))" (is "?L = ?R")
    proof
      assume ?L
      then obtain pre e' post where p: "ends = pre @ e' # post" "route st [r0] [e'] = Inl err"
        "\<forall>x \<in> set pre. \<exists>c. route st [r0] [x] = Inr c" by blast
      then have "e # ends = (e # pre) @ e' # post \<and> route st [r0] [e'] = Inl err \<and>
        (\<forall>x \<in> set (e # pre). \<exists>c. route st [r0] [x] = Inr c)" using Inr by simp
      then show ?R by blast
    next
      assume ?R
      then obtain pre e' post where p: "e # ends = pre @ e' # post" "route st [r0] [e'] = Inl err"
        "\<forall>x \<in> set pre. \<exists>c. route st [r0] [x] = Inr c" by blast
      show ?L
      proof (cases pre)
        case Nil
        with p Inr show ?thesis by simp
      next
        case (Cons x xs)
        with p have "ends = xs @ e' # post \<and> route st [r0] [e'] = Inl err \<and>
          (\<forall>x \<in> set xs. \<exists>c. route st [r0] [x] = Inr c)" by simp
        then show ?thesis by blast
      qed
    qed
    finally show ?thesis .
  qed
qed

lemma routeDiscovery'_longest:
  assumes "req_from (preq_req preq) \<noteq> []"
    and "req_to (preq_req preq) = [] \<or> req_to (preq_req preq) = req_from (preq_req preq)"
    and "route st (preq_startSegments preq) (preq_endSegments preq) = Inr rt"
    and "trim (startIDs (preq_startSegments preq)) rt = r0 # rest"
  shows "routeDiscovery' st preq = longest st r0 (preq_endSegments preq) (r0 # rest)"
  using assms by (auto simp: routeDiscovery'_def Let_def)

lemma handleAttempt_no_start:
  "fst (startHandler s (initial_preq (hand_req s))) = [] \<Longrightarrow>
   handleAttempt s = failed_attempt [] ErrNoStartSegments"
  by (auto simp: handleAttempt_def initial_preq_def failed_attempt_def Let_def split: prod.splits)

lemma handleAttempt_no_end:
  assumes "fst (startHandler s (initial_preq (hand_req s))) = segs" "segs \<noteq> []"
    and "fst (endHandler s ((initial_preq (hand_req s))\<lparr>preq_startSegments := segs\<rparr>)) = []"
  shows "handleAttempt s =
     \<lparr>att_startSegments = segs,
      att_startErr = snd (startHandler s (initial_preq (hand_req s))),
      att_endSegments = [], att_endErr = Some ErrNoEndSegments,
      att_routeSegments = [], att_routeErr = Some ErrNoEndSegments\<rparr>"
  using assms
  by (auto simp: handleAttempt_def initial_preq_def Let_def split: prod.splits)

lemma handleAttempt_route:
  assumes "fst (startHandler s (initial_preq (hand_req s))) \<noteq> []"
    and "fst (endHandler s (end_preq s)) \<noteq> []"
  shows "handleAttempt s =
     \<lparr>att_startSegments = fst (startHandler s (initial_preq (hand_req s))),
      att_startErr = snd (startHandler s (initial_preq (hand_req s))),
      att_endSegments = fst (endHandler s (end_preq s)),
      att_endErr = snd (endHandler s (end_preq s)),
      att_routeSegments = fst (routeHandler s (route_preq s)),
      att_routeErr = snd (routeHandler s (route_preq s))\<rparr>"
  using assms
  by (auto simp: handleAttempt_def initial_preq_def end_preq_def route_preq_def Let_def
      split: prod.splits)

lemma default_start_error:
  "snd (overrideDiscovery files stage st (startDiscovery st) preq) \<noteq> None \<Longrightarrow>
   fst (overrideDiscovery files stage st (startDiscovery st) preq) = []"
  by (auto simp: overrideDiscovery_def startDiscovery_def Let_def
      split: override_file.splits sum.splits if_splits)

lemma default_end_error:
  "snd (overrideDiscovery files stage st (endDiscovery st) preq) \<noteq> None \<Longrightarrow>
   fst (overrideDiscovery files stage st (endDiscovery st) preq) = []"
  by (auto simp: overrideDiscovery_def endDiscovery_def Let_def
      split: override_file.splits sum.splits list.splits)

lemma default_route_error:
  "snd (overrideDiscovery files stage st (routeDiscovery st) preq) \<noteq> None \<Longrightarrow>
   fst (overrideDiscovery files stage st (routeDiscovery st) preq) = []"
  by (auto simp: overrideDiscovery_def routeDiscovery_def results_def
      split: override_file.splits sum.splits)

lemma startDiscovery_filter:
  "startDiscovery st preq =
     (let segs = filter (start_match (preq_req preq)) (segments st);
          n = length (remdups (map routeID segs))
      in if n > 1 then ([], Some (ErrRouteConflict n)) else (segs, None))"
proof -
  have "filter_where (no_filter\<lparr>fullNames := [n]\<rparr>) s = (seg_name s = upper n)" for n s
    by (simp add: filter_where_def no_filter_def)
  moreover have "filter_where (no_filter\<lparr>fullNames := [n], endStreets := [f]\<rparr>) s =
      (seg_name s = upper n \<and> (upper f = seg_from s \<or> upper f = seg_to s))" for n f s
    by (simp add: filter_where_def no_filter_def)
  ultimately show ?thesis
    by (simp add: startDiscovery_def filterSegments_def start_match_def Let_def cong: filter_cong)
qed

lemma startDiscovery_rank: "startDiscovery st (with_rank k preq) = startDiscovery st preq"
  by (simp add: startDiscovery_def with_rank_def Let_def cong: if_cong)

lemma endDiscovery_rank: "endDiscovery st (with_rank k preq) = endDiscovery st preq"
  by (simp add: endDiscovery_def with_rank_def Let_def cong: if_cong list.case_cong)

lemma routeDiscovery_rank: "routeDiscovery st (with_rank k preq) = routeDiscovery st preq"
  by (simp add: routeDiscovery_def routeDiscovery'_def with_rank_def Let_def
      cong: if_cong list.case_cong sum.case_cong)

lemma overrideDiscovery_rank:
  assumes "files k stage = files (rank (preq_req preq)) stage"
    and "nxt (with_rank k preq) = nxt preq"
  shows "overrideDiscovery files stage st nxt (with_rank k preq) =
         overrideDiscovery files stage st nxt preq"
proof -
  have "rank (preq_req (with_rank k preq)) = k" by (simp add: with_rank_def)
  with assms show ?thesis by (simp add: overrideDiscovery_def split: override_file.splits)
qed

lemma overrideDiscovery_rank':
  assumes f: "files k stage = files (rank req) stage"
    and n: "\<And>preq. nxt (with_rank k preq) = nxt preq"
  shows "overrideDiscovery files stage st nxt
           \<lparr>preq_req = req\<lparr>rank := k\<rparr>, preq_startSegments = ss, preq_endSegments = es\<rparr> =
         overrideDiscovery files stage st nxt
           \<lparr>preq_req = req, preq_startSegments = ss, preq_endSegments = es\<rparr>"
proof -
  let ?p = "\<lparr>preq_req = req, preq_startSegments = ss, preq_endSegments = es\<rparr>"
  have 1: "files k stage = files (rank (preq_req ?p)) stage" using f by simp
  have 2: "nxt (with_rank k ?p) = nxt ?p" by (rule n)
  from overrideDiscovery_rank [where files = files and k = k and stage = stage and preq = ?p
      and nxt = nxt and st = st] 1 2
  show ?thesis by (simp add: with_rank_def)
qed

lemma handleAttempt_rank:
  assumes "\<And>stage. files k stage = files (rank req) stage"
  shows "handleAttempt (newDefaultRequestHandler files st (req\<lparr>rank := k\<rparr>)) =
         handleAttempt (newDefaultRequestHandler files st req)"
proof -
  note o = overrideDiscovery_rank' [where nxt = "startDiscovery st", OF assms startDiscovery_rank]
    overrideDiscovery_rank' [where nxt = "endDiscovery st", OF assms endDiscovery_rank]
    overrideDiscovery_rank' [where nxt = "routeDiscovery st", OF assms routeDiscovery_rank]
  show ?thesis
    by (simp add: handleAttempt_def newDefaultRequestHandler_def Let_def o
        cong: if_cong prod.case_cong)
qed

section \<open>The examples, evaluated\<close>

lemmas load_simps = loadSegments_def linkRows.simps routeLinkRows.simps routeSegments_def
  matches_def direction_switch_def isClose_def taxicab_def store_init_def test_segment_def
  zero_segment_def Let_def

lemmas route_simps = route_def route_graph_def routeRows_def buildGraph_def addRow_def
  graph_get_def graph_has_def expand_def filterSegments_def filter_where_def no_filter_def
  segsByID_def map_get_def test_segment_def zero_segment_def Let_def

lemmas pipeline_simps = handle_def handleAttempt_def newDefaultRequestHandler_def
  overrideDiscovery_def startDiscovery_def endDiscovery_def routeDiscovery_def
  routeDiscovery'_def results_def startIDs_def unquote_def upper_def upper_char_def
  test_request_def List.map_filter_def

lemma chain_load: "loadSegments taxicab [s1, s2, s3, s4, irr] store_init = (None, chain_store)"
  by (simp add: load_simps chain_store_def s1_def s2_def s3_def s4_def irr_def)

lemma chain_store_ok: "store_ok chain_store"
  by (simp add: store_ok_def chain_store_def s1_def s2_def s3_def s4_def irr_def test_segment_def)

lemma chain_route: "route chain_store [s1, s2] [s4] = Inr [s1, s2, s3, s4]"
  by (simp add: route_def route_graph_def routeRows_def buildGraph_def addRow_def graph_get_def
      graph_has_def expand_def filterSegments_def filter_where_def no_filter_def segsByID_def
      map_get_def chain_store_def s1_def s2_def s3_def s4_def irr_def test_segment_def
      zero_segment_def Let_def)

lemma chain_route2: "route chain_store [s1, s2] [s3, s4] = Inr [s1, s2, s3]"
  by (simp add: route_def route_graph_def routeRows_def buildGraph_def addRow_def graph_get_def
      graph_has_def expand_def filterSegments_def filter_where_def no_filter_def segsByID_def
      map_get_def chain_store_def s1_def s2_def s3_def s4_def irr_def test_segment_def
      zero_segment_def Let_def)

lemma chain_route_s2_s3: "route chain_store [s2] [s3] = Inr [s2, s3]"
  by (simp add: route_simps chain_store_def s1_def s2_def s3_def s4_def irr_def)

lemma chain_route_s2_s4: "route chain_store [s2] [s4] = Inr [s2, s3, s4]"
  by (simp add: route_simps chain_store_def s1_def s2_def s3_def s4_def irr_def)

lemma chain_route_s1_s4: "route chain_store [s1] [s4] = Inr [s1, s2, s3, s4]"
  by (simp add: route_simps chain_store_def s1_def s2_def s3_def s4_def irr_def)

lemma chain_path: "simple_path (route_graph chain_store (seg_id s1)) (seg_id s1) [1, 2, 3, 4]"
  by (simp add: simple_path_def edge_def route_graph_def routeRows_def buildGraph_def addRow_def
      graph_get_def graph_has_def chain_store_def s1_def s2_def s3_def s4_def irr_def
      test_segment_def Let_def)

lemma chain_trim: "trim (startIDs [s1, s2]) [s1, s2, s3] = [s2, s3]"
  by (simp add: startIDs_def s1_def s2_def s3_def test_segment_def)

lemma chain_start_a:
  "startDiscovery chain_store (initial_preq (test_request ''Test Ln'' ''A St'' ''Nowhere Crs''))
     = ([s1], None)"
  by (simp add: pipeline_simps route_simps initial_preq_def chain_store_def s1_def s2_def s3_def
      s4_def irr_def)

lemma chain_end_nowhere:
  "endDiscovery chain_store ((initial_preq (test_request ''Test Ln'' ''A St'' ''Nowhere Crs''))
     \<lparr>preq_startSegments := [s1]\<rparr>) = ([], None)"
  by (simp add: pipeline_simps route_simps initial_preq_def chain_store_def s1_def s2_def s3_def
      s4_def irr_def)

lemma chain_match:
  "filter (start_match (test_request ''Test Ln'' ''B St'' ''Nowhere Crs'')) (segments chain_store)
     = [s1, s2]"
  by (simp add: start_match_def pipeline_simps chain_store_def s1_def s2_def s3_def s4_def irr_def
      test_segment_def)

lemma chain_handle:
  "handle (newDefaultRequestHandler no_files chain_store (test_request ''Test Ln'' ''A St'' ''E St''))
     = Inr \<lparr>res_startSegments = [s1], res_endSegments = [s4],
            res_routeSegments = [s1, s2, s3, s4]\<rparr>"
proof -
  let ?req = "test_request ''Test Ln'' ''A St'' ''E St''"
  have st: "startDiscovery chain_store (initial_preq ?req) = ([s1], None)"
    by (simp add: pipeline_simps route_simps initial_preq_def chain_store_def s1_def s2_def s3_def
        s4_def irr_def)
  have en: "endDiscovery chain_store ((initial_preq ?req)\<lparr>preq_startSegments := [s1]\<rparr>)
      = ([s4], None)"
    by (simp add: pipeline_simps route_simps initial_preq_def chain_store_def s1_def s2_def s3_def
        s4_def irr_def)
  have rt: "routeDiscovery chain_store ((initial_preq ?req)\<lparr>preq_startSegments := [s1],
      preq_endSegments := [s4]\<rparr>) = ([s1, s2, s3, s4], None)"
    using chain_route_s1_s4
    by (simp add: routeDiscovery_def routeDiscovery'_def results_def startIDs_def
        initial_preq_def test_request_def s1_def s2_def s3_def s4_def test_segment_def)
  from st en rt show ?thesis
    by (simp add: handle_def handleAttempt_def newDefaultRequestHandler_def overrideDiscovery_def
        no_files_def initial_preq_def test_request_def List.map_filter_def)
qed

lemma from_b_routeDiscovery: "routeDiscovery' chain_store from_b_preq = Inr [s2, s3, s4]"
  using chain_route2 chain_route_s2_s3 chain_route_s2_s4 chain_trim
  by (simp add: routeDiscovery'_def from_b_preq_def test_request_def)

lemma oneway_load: "loadSegments taxicab [o1, o2] store_init = (None, oneway_store)"
  by (simp add: load_simps oneway_store_def o1_def o2_def)

lemma oneway_store_ok: "store_ok oneway_store"
  by (simp add: store_ok_def oneway_store_def o1_def o2_def test_segment_def)

lemma oneway_graph: "route_graph oneway_store 2 = [(2, []), (1, [2])]"
  by (simp add: route_graph_def routeRows_def buildGraph_def addRow_def graph_get_def
      graph_has_def oneway_store_def o1_def o2_def test_segment_def Let_def)

lemma oneway_no_walk:
  "\<not> (\<exists>w. w \<noteq> [] \<and> hd w = seg_id o2 \<and> walk (route_graph oneway_store (seg_id o2)) w \<and>
          last w \<in> seg_id ` set [o1])"
proof
  assume "\<exists>w. w \<noteq> [] \<and> hd w = seg_id o2 \<and> walk (route_graph oneway_store (seg_id o2)) w \<and>
          last w \<in> seg_id ` set [o1]"
  then obtain w where w: "w \<noteq> []" "hd w = seg_id o2" "walk (route_graph oneway_store (seg_id o2)) w"
    "last w \<in> seg_id ` set [o1]" by blast
  have id2: "seg_id o2 = 2" by (simp add: o2_def test_segment_def)
  have "graph_get (route_graph oneway_store (seg_id o2)) (seg_id o2) = []"
    unfolding id2 oneway_graph by (simp add: graph_get_def)
  from walk_stuck [OF this w(1) w(2) w(3)] have "w = [seg_id o2]" .
  with w(4) show False by (simp add: o1_def o2_def test_segment_def)
qed

lemma island_load: "loadSegments taxicab [i1, i2] store_init = (None, island_store)"
  by (simp add: load_simps island_store_def i1_def i2_def)

lemma zero_load: "loadSegments taxicab [z0, z5, z7] store_init = (None, zero_store)"
  by (simp add: load_simps zero_store_def z0_def z5_def z7_def)

lemma zero_route: "route zero_store [z5] [z7] = Inr [z5, z0, z7]"
  by (simp add: route_simps zero_store_def z0_def z5_def z7_def)

lemma zero_start:
  "startDiscovery zero_store \<lparr>preq_req = test_request ''Test Ln'' ''A St'' ''D St'',
     preq_startSegments = [], preq_endSegments = []\<rparr> = ([z5], None)"
  by (simp add: pipeline_simps route_simps zero_store_def z0_def z5_def z7_def)

lemma zero_end:
  "endDiscovery zero_store \<lparr>preq_req = test_request ''Test Ln'' ''A St'' ''D St'',
     preq_startSegments = [z5], preq_endSegments = []\<rparr> = ([z7], None)"
  by (simp add: pipeline_simps route_simps zero_store_def z0_def z5_def z7_def)

lemma zero_routeDiscovery:
  "routeDiscovery zero_store \<lparr>preq_req = test_request ''Test Ln'' ''A St'' ''D St'',
     preq_startSegments = [z5], preq_endSegments = [z7]\<rparr> = ([z0, z7], None)"
  using zero_route
  by (simp add: routeDiscovery_def routeDiscovery'_def results_def startIDs_def test_request_def
      z0_def z5_def z7_def test_segment_def)

lemma conflict_load: "loadSegments taxicab [a1, a2] store_init = (None, conflict_store)"
  by (simp add: load_simps conflict_store_def a1_def a2_def)

lemma conflict_start:
  "startDiscovery conflict_store (initial_preq (test_request ''Test Ln'' ''A St'' ''Nowhere Crs''))
     = ([], Some (ErrRouteConflict 2))"
  by (simp add: pipeline_simps route_simps initial_preq_def conflict_store_def a1_def a2_def)

lemma conflict_match:
  "filter (start_match (test_request ''Test Ln'' ''A St'' ''Nowhere Crs'')) (segments conflict_store)
     = [a1, a2]"
  by (simp add: start_match_def pipeline_simps conflict_store_def a1_def a2_def test_segment_def)

lemma back_load:
  "loadSegments taxicab [d1, d2] store_init =
     (Some (ErrUnknownDirectionPair ''FDTO'' ''FDTO'' 1 2),
      \<lparr>segments = [d1, d2], segment_links = [], links_index = False\<rparr>)"
  by (simp add: load_simps d1_def d2_def)

section \<open>Claims about the adjacency builder\<close>

text \<open>
  C1. For a segment \<open>cur\<close> and the segments \<open>segs\<close> of its route, \<open>matches\<close> fails with the
  unknown-pair error at the first segment with another id whose pairing with \<open>cur\<close> the table
  does not enumerate; without such a segment it returns exactly the segments with another id
  to which the table allows an edge from \<open>cur\<close>, in their order. For a whole batch whose
  segments were inserted: when two segments with different ids on one route form a pair that
  is not enumerated, loading fails with the unknown-pair error and the links are as before;
  otherwise the links added are exactly the rows \<open>(cur, route, next)\<close> the table allows.
\<close>

theorem matches_table:
  "matches distance segs cur =
     (case first_unknown segs cur of
        Some nx \<Rightarrow> Inl (ErrUnknownDirectionPair (direction cur) (direction nx)
                         (seg_id cur) (seg_id nx))
      | None \<Rightarrow> Inr (filter (\<lambda>nx. seg_id nx \<noteq> seg_id cur \<and> table_edge distance cur nx) segs)) \<and>
   (insertSegments batch (segments st) = Inr tbl \<longrightarrow>
      (unknown_pair batch \<longrightarrow>
         (\<exists>a b i j. fst (loadSegments distance batch st) = Some (ErrUnknownDirectionPair a b i j)) \<and>
         segment_links (snd (loadSegments distance batch st)) = segment_links st) \<and>
      (\<not> unknown_pair batch \<longrightarrow>
         set (segment_links (snd (loadSegments distance batch st))) =
           set (segment_links st) \<union> table_rows distance batch))"
proof -
  have 2: "(\<exists>a b i j. fst (loadSegments distance batch st) = Some (ErrUnknownDirectionPair a b i j)) \<and>
         segment_links (snd (loadSegments distance batch st)) = segment_links st"
    if "insertSegments batch (segments st) = Inr tbl" "unknown_pair batch"
    using that linkRows_batch [of batch distance] by (auto simp: loadSegments_def)
  have 3: "set (segment_links (snd (loadSegments distance batch st))) =
           set (segment_links st) \<union> table_rows distance batch"
    if "insertSegments batch (segments st) = Inr tbl" "\<not> unknown_pair batch"
    using that linkRows_batch [of batch distance]
    by (auto simp: loadSegments_def Let_def split: if_splits)
  from matches_table' [of distance segs cur] 2 3 show ?thesis by blast
qed

theorem matches_table_witness:
  "insertSegments [s1, s2, s3, s4, irr] (segments store_init) = Inr [s1, s2, s3, s4, irr] \<and>
   \<not> unknown_pair [s1, s2, s3, s4, irr] \<and>
   table_rows taxicab [s1, s2, s3, s4, irr] = set (segment_links chain_store) \<and>
   matches taxicab [s1, s2, s3, s4] s2 = Inr [s1, s3] \<and>
   insertSegments [d1, d2] (segments store_init) = Inr [d1, d2] \<and>
   unknown_pair [d1, d2] \<and>
   matches taxicab [d1, d2] d1 = Inl (ErrUnknownDirectionPair ''FDTO'' ''FDTO'' 1 2) \<and>
   fst (loadSegments taxicab [d1, d2] store_init)
     = Some (ErrUnknownDirectionPair ''FDTO'' ''FDTO'' 1 2) \<and>
   segment_links (snd (loadSegments taxicab [d1, d2] store_init)) = []"
proof -
  have i1: "insertSegments [s1, s2, s3, s4, irr] (segments store_init) = Inr [s1, s2, s3, s4, irr]"
    by (simp add: store_init_def s1_def s2_def s3_def s4_def irr_def test_segment_def)
  have u1: "\<not> unknown_pair [s1, s2, s3, s4, irr]"
    by (simp add: unknown_pair_def enumerated_pair_def s1_def s2_def s3_def s4_def irr_def
        test_segment_def)
  have i2: "insertSegments [d1, d2] (segments store_init) = Inr [d1, d2]"
    by (simp add: store_init_def d1_def d2_def test_segment_def)
  have u2: "unknown_pair [d1, d2]"
    by (simp add: unknown_pair_def enumerated_pair_def d1_def d2_def test_segment_def)
  note mt = matches_table [of taxicab "[s1, s2, s3, s4]" s2 "[s1, s2, s3, s4, irr]" store_init
      "[s1, s2, s3, s4, irr]"]
  from mt i1 u1
  have "set (segment_links (snd (loadSegments taxicab [s1, s2, s3, s4, irr] store_init))) =
      set (segment_links store_init) \<union> table_rows taxicab [s1, s2, s3, s4, irr]"
    by blast
  then have t: "table_rows taxicab [s1, s2, s3, s4, irr] = set (segment_links chain_store)"
    unfolding chain_load by (simp add: store_init_def)
  from mt have m: "matches taxicab [s1, s2, s3, s4] s2 =
      (case first_unknown [s1, s2, s3, s4] s2 of
         Some nx \<Rightarrow> Inl (ErrUnknownDirectionPair (direction s2) (direction nx)
                         (seg_id s2) (seg_id nx))
       | None \<Rightarrow> Inr (filter (\<lambda>nx. seg_id nx \<noteq> seg_id s2 \<and> table_edge taxicab s2 nx)
                       [s1, s2, s3, s4]))"
    by blast
  have m1: "matches taxicab [s1, s2, s3, s4] s2 = Inr [s1, s3]"
    unfolding m
    by (simp add: first_unknown_def enumerated_pair_def table_edge_def isClose_def taxicab_def
        s1_def s2_def s3_def s4_def test_segment_def)
  have m2: "matches taxicab [d1, d2] d1 = Inl (ErrUnknownDirectionPair ''FDTO'' ''FDTO'' 1 2)"
    by (simp add: load_simps d1_def d2_def)
  from i1 u1 t m1 i2 u2 m2 back_load show ?thesis by simp
qed

text \<open>
  C4, as the code has it. \<open>loadSegments\<close> runs two transactions. When an insertion of the first
  fails (a primary-key conflict), the database is unchanged. When adjacency construction
  fails on an unknown direction pair, no link has been added, and every segment of the batch
  is in the database. In every other case all segments of the batch and all links of the
  batch are there (the call still returns an error when the index exists already). No other
  outcome exists. The primary key is kept throughout.
\<close>

theorem loadSegments_transactions:
  assumes "loadSegments distance batch st = (err, st')"
  shows "(\<forall>i. err = Some (ErrConstraint i) \<longrightarrow> st' = st) \<and>
         (\<forall>a b i j. err = Some (ErrUnknownDirectionPair a b i j) \<longrightarrow>
            set (segments st') = set (segments st) \<union> set batch \<and>
            segment_links st' = segment_links st) \<and>
         (err = None \<or> err = Some ErrIndexExists \<longrightarrow>
            set (segments st') = set (segments st) \<union> set batch \<and>
            set (segment_links st') = set (segment_links st) \<union> table_rows distance batch) \<and>
         (err = None \<or> err = Some ErrIndexExists \<or> (\<exists>i. err = Some (ErrConstraint i)) \<or>
            (\<exists>a b i j. err = Some (ErrUnknownDirectionPair a b i j))) \<and>
         (store_ok st \<longrightarrow> store_ok st')"
proof -
  from loadSegments_cases [of distance batch st]
  consider (conflict) i where "loadSegments distance batch st = (Some (ErrConstraint i), st)"
    | (pair) tbl a b i j where "insertSegments batch (segments st) = Inr tbl"
        "loadSegments distance batch st =
           (Some (ErrUnknownDirectionPair a b i j), st\<lparr>segments := tbl\<rparr>)"
    | (loaded) tbl rows where "insertSegments batch (segments st) = Inr tbl"
        "linkRows distance batch (remdups (map routeID batch)) = Inr rows"
        "loadSegments distance batch st =
              (Some ErrIndexExists, st\<lparr>segments := tbl, segment_links := segment_links st @ rows\<rparr>) \<or>
         loadSegments distance batch st =
              (None, st\<lparr>segments := tbl, segment_links := segment_links st @ rows,
                         links_index := True\<rparr>)"
    by blast
  then show ?thesis
  proof cases
    case conflict
    with assms have "err = Some (ErrConstraint i)" "st' = st" by simp_all
    then show ?thesis by simp
  next
    case pair
    from insertSegments_Inr [OF pair(1)] pair(2) assms show ?thesis
      by (auto simp: store_ok_def)
  next
    case loaded
    from linkRows_batch [of batch distance] loaded(2)
    have rows: "set rows = table_rows distance batch" by auto
    from insertSegments_Inr [OF loaded(1)] loaded(3) assms rows show ?thesis
      by (auto simp: store_ok_def)
  qed
qed

theorem loadSegments_transactions_witness:
  "loadSegments taxicab [d1, d2] store_init =
     (Some (ErrUnknownDirectionPair ''FDTO'' ''FDTO'' 1 2),
      \<lparr>segments = [d1, d2], segment_links = [], links_index = False\<rparr>) \<and>
   set (segments \<lparr>segments = [d1, d2], segment_links = [], links_index = False\<rparr>)
     = set (segments store_init) \<union> set [d1, d2] \<and>
   loadSegments taxicab [s1, s2, s3, s4, irr] store_init = (None, chain_store) \<and>
   set (segment_links chain_store) = table_rows taxicab [s1, s2, s3, s4, irr] \<and>
   loadSegments taxicab [s1] chain_store = (Some (ErrConstraint 1), chain_store) \<and>
   store_ok store_init \<and> store_ok chain_store"
proof -
  have c: "loadSegments taxicab [s1] chain_store = (Some (ErrConstraint 1), chain_store)"
    by (simp add: loadSegments_def chain_store_def s1_def s2_def s3_def s4_def irr_def
        test_segment_def)
  have ok: "store_ok store_init" by (simp add: store_ok_def store_init_def)
  from loadSegments_transactions [OF back_load]
  have 1: "set (segments \<lparr>segments = [d1, d2], segment_links = [], links_index = False\<rparr>)
     = set (segments store_init) \<union> set [d1, d2]" by blast
  from loadSegments_transactions [OF chain_load] ok
  have 2: "set (segment_links chain_store) = table_rows taxicab [s1, s2, s3, s4, irr]"
    and 3: "store_ok chain_store"
    by (simp_all add: store_init_def)
  from back_load chain_load c ok 1 2 3 show ?thesis by simp
qed

text \<open>
  C4 as stated fails: loading the two last-to-first segments into the empty database fails in
  adjacency construction, and the database afterwards holds both segments of the batch.
\<close>

theorem loadSegments_atomic_counterexample:
  "loadSegments taxicab [d1, d2] store_init =
     (Some (ErrUnknownDirectionPair ''FDTO'' ''FDTO'' 1 2),
      \<lparr>segments = [d1, d2], segment_links = [], links_index = False\<rparr>) \<and>
   segments store_init = [] \<and>
   filterSegments (snd (loadSegments taxicab [d1, d2] store_init)) no_filter = [d1, d2]"
  using back_load
  by (simp add: store_init_def filterSegments_def filter_where_def no_filter_def)

section \<open>Claims about the path finder\<close>

text \<open>
  C2. The path finder uses the first start segment only: the other start candidates do not
  change its result. When it succeeds, the returned path is no longer (so has no more edges)
  than any simple path of the seed's route graph from the seed to the id of an end
  candidate. When no walk of that graph leads from the seed to the id of an end candidate, the
  call returns no path but an error: "could not find path", unless an end candidate is not a
  node of the graph, which the membership check reports first. And "could not find path" is
  returned only when no such walk exists.
\<close>

theorem route_shortest:
  assumes ok: "store_ok st"
  shows "route st (f # fs) ts = route st [f] ts \<and>
         (\<forall>rs w. route st (f # fs) ts = Inr rs \<longrightarrow>
            simple_path (route_graph st (seg_id f)) (seg_id f) w \<longrightarrow>
            last w \<in> seg_id ` set ts \<longrightarrow> length rs \<le> length w) \<and>
         (ts \<noteq> [] \<longrightarrow>
            \<not> (\<exists>w. w \<noteq> [] \<and> hd w = seg_id f \<and> walk (route_graph st (seg_id f)) w \<and>
                  last w \<in> seg_id ` set ts) \<longrightarrow>
            route st (f # fs) ts = Inl ErrNoPath \<or>
            (\<exists>t \<in> set ts. \<not> graph_has (route_graph st (seg_id f)) (seg_id t) \<and>
               route st (f # fs) ts = Inl (ErrToNotInGraph (seg_id t)))) \<and>
         (route st (f # fs) ts = Inl ErrNoPath \<longrightarrow>
            \<not> (\<exists>w. w \<noteq> [] \<and> hd w = seg_id f \<and> walk (route_graph st (seg_id f)) w \<and>
                  last w \<in> seg_id ` set ts))"
proof -
  have 1: "route st (f # fs) ts = route st [f] ts" by (rule route_seed)
  have 2: "length rs \<le> length w"
    if "route st (f # fs) ts = Inr rs" "simple_path (route_graph st (seg_id f)) (seg_id f) w"
      "last w \<in> seg_id ` set ts" for rs w
    using ok that by (rule route_minimal)
  have 3: "route st (f # fs) ts = Inl ErrNoPath \<or>
            (\<exists>t \<in> set ts. \<not> graph_has (route_graph st (seg_id f)) (seg_id t) \<and>
               route st (f # fs) ts = Inl (ErrToNotInGraph (seg_id t)))"
    if "ts \<noteq> []" "\<not> (\<exists>w. w \<noteq> [] \<and> hd w = seg_id f \<and> walk (route_graph st (seg_id f)) w \<and>
                  last w \<in> seg_id ` set ts)"
    using that by (rule route_failure)
  have 4: "\<not> (\<exists>w. w \<noteq> [] \<and> hd w = seg_id f \<and> walk (route_graph st (seg_id f)) w \<and>
                  last w \<in> seg_id ` set ts)"
    if "route st (f # fs) ts = Inl ErrNoPath"
    using that by (rule route_no_path)
  from 1 2 3 4 show ?thesis by blast
qed

theorem route_shortest_witness:
  "store_ok chain_store \<and> route chain_store [s1, s2] [s3, s4] = route chain_store [s1] [s3, s4] \<and>
   route chain_store [s1, s2] [s3, s4] = Inr [s1, s2, s3] \<and>
   simple_path (route_graph chain_store (seg_id s1)) (seg_id s1) [1, 2, 3, 4] \<and>
   length [s1, s2, s3] \<le> length [1, 2, 3, 4 :: int] \<and>
   loadSegments taxicab [o1, o2] store_init = (None, oneway_store) \<and>
   store_ok oneway_store \<and> route oneway_store [o2, o1] [o1] = Inl ErrNoPath"
proof -
  have 1: "route chain_store [s1, s2] [s3, s4] = route chain_store [s1] [s3, s4]"
    using route_shortest [OF chain_store_ok, of s1 "[s2]" "[s3, s4]"] by blast
  have "\<not> graph_has (route_graph oneway_store (seg_id o2)) (seg_id o1) \<Longrightarrow> False"
    by (simp add: graph_has_def oneway_graph o1_def o2_def test_segment_def)
  then have 2: "route oneway_store [o2, o1] [o1] = Inl ErrNoPath"
    using route_shortest [OF oneway_store_ok, of o2 "[o1]" "[o1]"] oneway_no_walk by auto
  show ?thesis using 1 2 chain_store_ok oneway_store_ok oneway_load chain_route2 chain_path
    by simp
qed

text \<open>
  C8, as the code has it. A call with candidates on both sides fails with "to segment not found
  in route graph" exactly when some to-candidate is not a node of the graph built for the first
  from-candidate, and the error names such a candidate. The nodes are the first from-candidate
  and the two ends of every link of its stored route: of the segments without links, only the
  first from-candidate is a node.
\<close>

theorem route_membership:
  assumes "fromSegments \<noteq> []" "toSegments \<noteq> []"
  shows "((\<exists>i. route st fromSegments toSegments = Inl (ErrToNotInGraph i)) =
          (\<exists>t \<in> set toSegments. \<not> graph_node st (seg_id (hd fromSegments)) (seg_id t))) \<and>
         (\<forall>i. route st fromSegments toSegments = Inl (ErrToNotInGraph i) \<longrightarrow>
            (\<exists>t \<in> set toSegments. i = seg_id t \<and>
               \<not> graph_node st (seg_id (hd fromSegments)) (seg_id t))) \<and>
         graph_has (route_graph st (seg_id (hd fromSegments))) = graph_node st (seg_id (hd fromSegments))"
proof -
  let ?P = "\<lambda>seg. \<not> graph_node st (seg_id (hd fromSegments)) (seg_id seg)"
  have 1: "(\<exists>i. route st fromSegments toSegments = Inl (ErrToNotInGraph i)) =
        (\<exists>t \<in> set toSegments. ?P t)"
  proof (cases "find ?P toSegments")
    case None
    then show ?thesis
      unfolding route_not_in_graph [OF assms] by (auto simp: find_None_iff)
  next
    case (Some t)
    then have "t \<in> set toSegments" "?P t" by (auto simp: find_Some_iff)
    with Some show ?thesis unfolding route_not_in_graph [OF assms] by auto
  qed
  have 2: "\<exists>t \<in> set toSegments. i = seg_id t \<and> ?P t"
    if "route st fromSegments toSegments = Inl (ErrToNotInGraph i)" for i
    using that unfolding route_not_in_graph [OF assms] by (auto simp: find_Some_iff)
  have 3: "graph_has (route_graph st (seg_id (hd fromSegments))) =
      graph_node st (seg_id (hd fromSegments))"
    by (rule ext) (rule graph_has_route_graph)
  from 1 2 3 show ?thesis by blast
qed

theorem route_membership_witness:
  "[i1] \<noteq> [] \<and> [i2] \<noteq> [] \<and> \<not> graph_node island_store (seg_id (hd [i1])) (seg_id i2) \<and>
   (\<exists>i. route island_store [i1] [i2] = Inl (ErrToNotInGraph i)) \<and>
   graph_node island_store (seg_id (hd [i1])) (seg_id i1)"
proof -
  have n: "\<not> graph_node island_store (seg_id (hd [i1])) (seg_id i2)"
    by (simp add: graph_node_def island_store_def i1_def i2_def test_segment_def)
  have "[i1] \<noteq> []" "[i2] \<noteq> []" by simp_all
  from route_membership [OF this, of island_store] n
  have "\<exists>i. route island_store [i1] [i2] = Inl (ErrToNotInGraph i)" by auto
  with n show ?thesis by (simp add: graph_node_def)
qed

text \<open>
  C8 as stated fails: \<open>i1\<close> and \<open>i2\<close> lie on route 1 and touch nowhere, so loading them
  creates no link; the to-candidate \<open>i2\<close> has no edges, and the membership check rejects it.
\<close>

theorem route_membership_counterexample:
  "loadSegments taxicab [i1, i2] store_init = (None, island_store) \<and>
   routeID i2 = routeID i1 \<and> segment_links island_store = [] \<and>
   route island_store [i1] [i2] = Inl (ErrToNotInGraph (seg_id i2))"
  using island_load
  by (simp add: route_def route_graph_def routeRows_def buildGraph_def graph_has_def
      island_store_def i1_def i2_def test_segment_def)

text \<open>
  C10. Under the primary key of table \<open>segments\<close>, a successful call of \<open>route\<close> returns stored
  segments that form a simple path of the seed's route graph: the first has the id of the first
  from-candidate (and is that candidate when it is a stored row), the last has the id of a
  to-candidate (and is one when they are stored rows), no id occurs twice, every two
  consecutive segments are joined by a row of \<open>segment_links\<close> of the seed's route, and the path
  has one element exactly when the first from-candidate's id is the id of a to-candidate.
\<close>

theorem route_simple_path:
  assumes ok: "store_ok st" and r: "route st fromSegments toSegments = Inr rs"
  shows "rs \<noteq> [] \<and> set rs \<subseteq> set (segments st) \<and>
         seg_id (hd rs) = seg_id (hd fromSegments) \<and>
         (hd fromSegments \<in> set (segments st) \<longrightarrow> hd rs = hd fromSegments) \<and>
         seg_id (last rs) \<in> seg_id ` set toSegments \<and>
         (set toSegments \<subseteq> set (segments st) \<longrightarrow> last rs \<in> set toSegments) \<and>
         distinct (map seg_id rs) \<and>
         (\<forall>i. Suc i < length rs \<longrightarrow>
            (\<exists>rid. stored_route st (seg_id (hd fromSegments)) = Some rid \<and>
               (seg_id (rs ! i), rid, seg_id (rs ! Suc i)) \<in> set (segment_links st))) \<and>
         ((length rs = 1) = (seg_id (hd fromSegments) \<in> seg_id ` set toSegments))"
proof -
  define fid where "fid = seg_id (hd fromSegments)"
  define g where "g = route_graph st fid"
  from route_Inr [OF ok r]
  have b: "bfs g (map seg_id toSegments) [[fid]] = Inr (map seg_id rs)"
    and sub: "set rs \<subseteq> set (segments st)"
    unfolding fid_def g_def by auto
  have "simple_path g fid (map seg_id rs) \<and> last (map seg_id rs) \<in> set (map seg_id toSegments)"
    by (rule bfs_sound [OF _ b]) (simp add: simple_path_def)
  then have ne: "rs \<noteq> []" and h: "hd (map seg_id rs) = fid" and d: "distinct (map seg_id rs)"
    and w: "walk g (map seg_id rs)" and l: "last (map seg_id rs) \<in> set (map seg_id toSegments)"
    unfolding simple_path_def by auto
  from h ne have h': "seg_id (hd rs) = fid" by (simp add: hd_map)
  from l ne have l': "seg_id (last rs) \<in> seg_id ` set toSegments" by (simp add: last_map)
  from ok have inj: "inj_on seg_id (set (segments st))"
    unfolding store_ok_def by (simp add: distinct_map)
  have hs: "hd rs \<in> set (segments st)" and ls: "last rs \<in> set (segments st)"
    using ne sub by auto
  have first: "hd rs = hd fromSegments" if "hd fromSegments \<in> set (segments st)"
    using inj hs that h' unfolding fid_def by (auto dest: inj_onD)
  have lst: "last rs \<in> set toSegments" if "set toSegments \<subseteq> set (segments st)"
  proof -
    from l' obtain t where t: "t \<in> set toSegments" "seg_id (last rs) = seg_id t" by auto
    with that have "t \<in> set (segments st)" by auto
    with inj ls t(2) have "last rs = t" by (auto dest: inj_onD)
    with t(1) show ?thesis by simp
  qed
  have links: "\<exists>rid. stored_route st fid = Some rid \<and>
      (seg_id (rs ! i), rid, seg_id (rs ! Suc i)) \<in> set (segment_links st)"
    if "Suc i < length rs" for i
  proof -
    from that have "edge g (map seg_id rs ! i) (map seg_id rs ! Suc i)"
      by (intro walk_nth [OF w]) simp
    with that show ?thesis unfolding g_def edge_route_graph by simp
  qed
  have one: "(length rs = 1) = (fid \<in> seg_id ` set toSegments)"
    using bfs_single [OF b] by simp
  show ?thesis
    using ne sub h' first l' lst d links one unfolding fid_def by blast
qed

theorem route_simple_path_witness:
  "loadSegments taxicab [s1, s2, s3, s4, irr] store_init = (None, chain_store) \<and>
   store_ok chain_store \<and> route chain_store [s1, s2] [s4] = Inr [s1, s2, s3, s4] \<and>
   hd [s1, s2, s3, s4] = hd [s1, s2] \<and> last [s1, s2, s3, s4] \<in> set [s4] \<and>
   distinct (map seg_id [s1, s2, s3, s4]) \<and>
   (seg_id s1, 1, seg_id s2) \<in> set (segment_links chain_store) \<and>
   length [s1, s2, s3, s4] \<noteq> 1"
proof -
  from route_simple_path [OF chain_store_ok chain_route]
  have "distinct (map seg_id [s1, s2, s3, s4]) \<and> length [s1, s2, s3, s4] \<noteq> 1 \<and>
      last [s1, s2, s3, s4] \<in> set [s4]"
    by (simp add: s4_def test_segment_def)
  moreover have "(seg_id s1, 1, seg_id s2) \<in> set (segment_links chain_store)"
    by (simp add: chain_store_def s1_def s2_def test_segment_def)
  ultimately show ?thesis using chain_load chain_store_ok chain_route by simp
qed

section \<open>Claims about the discovery pipeline\<close>

text \<open>
  C3, as the code has it. For a request with a from street whose to street is empty or equal
  to it, route discovery first trims the path of the path finder; it then searches, for every
  end candidate in turn, a path from the first segment of the trimmed path to that candidate.
  Route discovery fails with an error exactly when that error is the one of the first search
  that fails: the searches for the end candidates before it have succeeded, and those after it
  play no part. When no search fails, it returns the trimmed path or one of the paths found,
  and the result is at least as long as the trimmed path and as every path found.
\<close>

theorem routeDiscovery_longest:
  assumes ok: "store_ok st"
    and fr: "req_from (preq_req preq) \<noteq> []"
    and to: "req_to (preq_req preq) = [] \<or> req_to (preq_req preq) = req_from (preq_req preq)"
    and rt: "route st (preq_startSegments preq) (preq_endSegments preq) = Inr rt"
    and rt1: "rt1 = trim (startIDs (preq_startSegments preq)) rt"
  shows "rt1 \<noteq> [] \<and>
     (\<forall>res. routeDiscovery' st preq = Inr res \<longrightarrow>
        length rt1 \<le> length res \<and>
        (\<forall>e \<in> set (preq_endSegments preq).
           \<exists>c. route st [hd rt1] [e] = Inr c \<and> length c \<le> length res) \<and>
        (res = rt1 \<or> (\<exists>e \<in> set (preq_endSegments preq). route st [hd rt1] [e] = Inr res))) \<and>
     (\<forall>err. (routeDiscovery' st preq = Inl err) =
        (\<exists>pre e post. preq_endSegments preq = pre @ e # post \<and>
           route st [hd rt1] [e] = Inl err \<and>
           (\<forall>x \<in> set pre. \<exists>c. route st [hd rt1] [x] = Inr c))) \<and>
     ((\<exists>res. routeDiscovery' st preq = Inr res) =
        (\<forall>e \<in> set (preq_endSegments preq). \<exists>c. route st [hd rt1] [e] = Inr c))"
proof -
  let ?ends = "preq_endSegments preq"
  from route_nonempty [OF ok rt] have "rt1 \<noteq> []" unfolding rt1 by (rule trim_nonempty)
  then obtain r0 rest where c: "rt1 = r0 # rest" by (cases rt1) auto
  have eq: "routeDiscovery' st preq = longest st r0 ?ends rt1"
    unfolding c by (rule routeDiscovery'_longest [OF fr to rt]) (simp add: c [symmetric] rt1)
  have 1: "length rt1 \<le> length res \<and>
        (\<forall>e \<in> set ?ends. \<exists>c. route st [r0] [e] = Inr c \<and> length c \<le> length res) \<and>
        (res = rt1 \<or> (\<exists>e \<in> set ?ends. route st [r0] [e] = Inr res))"
    if "routeDiscovery' st preq = Inr res" for res
    using that unfolding eq by (rule longest_Inr)
  have 5: "(routeDiscovery' st preq = Inl err) =
        (\<exists>pre e post. ?ends = pre @ e # post \<and> route st [r0] [e] = Inl err \<and>
           (\<forall>x \<in> set pre. \<exists>c. route st [r0] [x] = Inr c))" for err
    unfolding eq by (rule longest_Inl)
  have 2: "\<exists>e \<in> set ?ends. route st [r0] [e] = Inl err"
    if "routeDiscovery' st preq = Inl err" for err
    using that unfolding 5 by auto
  have 3: "\<exists>res. routeDiscovery' st preq = Inr res"
    if all: "\<forall>e \<in> set ?ends. \<exists>c. route st [r0] [e] = Inr c"
  proof (cases "routeDiscovery' st preq")
    case (Inl err)
    from 2 [OF this] all show ?thesis by auto
  next
    case (Inr res)
    then show ?thesis by blast
  qed
  have 4: "(\<exists>res. routeDiscovery' st preq = Inr res) =
        (\<forall>e \<in> set ?ends. \<exists>c. route st [r0] [e] = Inr c)"
    using 1 3 by blast
  from \<open>rt1 \<noteq> []\<close> 1 4 5 show ?thesis unfolding c by simp
qed

lemma oneway_route_o2: "route oneway_store [o2] [o2, o1] = Inr [o2]"
  by (simp add: route_simps oneway_store_def o1_def o2_def)

lemma oneway_route_o2_o2: "route oneway_store [o2] [o2] = Inr [o2]"
  by (simp add: route_simps oneway_store_def o1_def o2_def)

lemma oneway_route_o2_o1: "route oneway_store [o2] [o1] = Inl ErrNoPath"
  by (simp add: route_simps oneway_store_def o1_def o2_def)

theorem routeDiscovery_longest_witness:
  "store_ok chain_store \<and> req_from (preq_req from_b_preq) \<noteq> [] \<and>
   req_to (preq_req from_b_preq) = [] \<and>
   route chain_store (preq_startSegments from_b_preq) (preq_endSegments from_b_preq)
     = Inr [s1, s2, s3] \<and>
   [s2, s3] = trim (startIDs (preq_startSegments from_b_preq)) [s1, s2, s3] \<and>
   routeDiscovery' chain_store from_b_preq = Inr [s2, s3, s4] \<and>
   route chain_store [hd [s2, s3]] [s4] = Inr [s2, s3, s4] \<and>
   length [s2, s3] \<le> length [s2, s3, s4] \<and>
   store_ok oneway_store \<and> req_from (preq_req from_c_preq) \<noteq> [] \<and>
   req_to (preq_req from_c_preq) = [] \<and>
   route oneway_store (preq_startSegments from_c_preq) (preq_endSegments from_c_preq) = Inr [o2] \<and>
   [o2] = trim (startIDs (preq_startSegments from_c_preq)) [o2] \<and>
   preq_endSegments from_c_preq = [o2] @ o1 # [] \<and>
   route oneway_store [hd [o2]] [o2] = Inr [o2] \<and>
   route oneway_store [hd [o2]] [o1] = Inl ErrNoPath \<and>
   routeDiscovery' oneway_store from_c_preq = Inl ErrNoPath"
proof -
  have a: "req_from (preq_req from_b_preq) \<noteq> []"
    and b: "req_to (preq_req from_b_preq) = [] \<or>
            req_to (preq_req from_b_preq) = req_from (preq_req from_b_preq)"
    and c: "route chain_store (preq_startSegments from_b_preq) (preq_endSegments from_b_preq)
              = Inr [s1, s2, s3]"
    and d: "[s2, s3] = trim (startIDs (preq_startSegments from_b_preq)) [s1, s2, s3]"
    using chain_route2 chain_trim by (simp_all add: from_b_preq_def test_request_def)
  from routeDiscovery_longest [OF chain_store_ok a b c d] from_b_routeDiscovery
  have l: "length [s2, s3] \<le> length [s2, s3, s4]" by blast
  have a': "req_from (preq_req from_c_preq) \<noteq> []"
    and b': "req_to (preq_req from_c_preq) = [] \<or>
            req_to (preq_req from_c_preq) = req_from (preq_req from_c_preq)"
    and c': "route oneway_store (preq_startSegments from_c_preq) (preq_endSegments from_c_preq)
              = Inr [o2]"
    and d': "[o2] = trim (startIDs (preq_startSegments from_c_preq)) [o2]"
    and e': "preq_endSegments from_c_preq = [o2] @ o1 # []"
    using oneway_route_o2 by (simp_all add: from_c_preq_def test_request_def)
  have "\<exists>pre e post. preq_endSegments from_c_preq = pre @ e # post \<and>
      route oneway_store [hd [o2]] [e] = Inl ErrNoPath \<and>
      (\<forall>x \<in> set pre. \<exists>c. route oneway_store [hd [o2]] [x] = Inr c)"
    using e' oneway_route_o2_o2 oneway_route_o2_o1
    by (intro exI [of _ "[o2]"] exI [of _ o1] exI [of _ "[]"]) simp
  with routeDiscovery_longest [OF oneway_store_ok a' b' c' d']
  have f: "routeDiscovery' oneway_store from_c_preq = Inl ErrNoPath" by blast
  from a c d chain_store_ok from_b_routeDiscovery chain_route_s2_s4 l
    a' c' d' e' f oneway_store_ok oneway_route_o2_o2 oneway_route_o2_o1
  show ?thesis by (simp add: from_b_preq_def from_c_preq_def test_request_def)
qed

text \<open>
  C3 as stated fails. The first start segment of the request is \<open>s1\<close>, and the path from \<open>s1\<close>
  to the end candidate \<open>s4\<close> has four segments; route discovery searches from \<open>s2\<close>, the head
  of the trimmed path, and returns three. The same result comes out of the whole pipeline
  when the end stage is overridden with the ids 3 and 4.
\<close>

theorem routeDiscovery_longest_counterexample:
  "preq_startSegments from_b_preq = [s1, s2] \<and> preq_endSegments from_b_preq = [s3, s4] \<and>
   req_to (preq_req from_b_preq) = [] \<and>
   route chain_store [s1] [s4] = Inr [s1, s2, s3, s4] \<and>
   routeDiscovery' chain_store from_b_preq = Inr [s2, s3, s4] \<and>
   length [s2, s3, s4] < length [s1, s2, s3, s4] \<and>
   handle (newDefaultRequestHandler end_override chain_store (test_request ''Test Ln'' ''B St'' []))
     = Inr \<lparr>res_startSegments = [s1, s2], res_endSegments = [s3, s4],
            res_routeSegments = [s2, s3, s4]\<rparr>"
proof -
  have st: "startDiscovery chain_store \<lparr>preq_req = test_request ''Test Ln'' ''B St'' [],
      preq_startSegments = [], preq_endSegments = []\<rparr> = ([s1, s2], None)"
    by (simp add: pipeline_simps route_simps chain_store_def s1_def s2_def s3_def s4_def irr_def)
  have en: "filterSegments chain_store (no_filter\<lparr>ids := [3, 4]\<rparr>) = [s3, s4]"
    by (simp add: route_simps chain_store_def s1_def s2_def s3_def s4_def irr_def)
  have "handle (newDefaultRequestHandler end_override chain_store (test_request ''Test Ln'' ''B St'' []))
     = Inr \<lparr>res_startSegments = [s1, s2], res_endSegments = [s3, s4],
            res_routeSegments = [s2, s3, s4]\<rparr>"
    using st en from_b_routeDiscovery
    by (simp add: handle_def handleAttempt_def newDefaultRequestHandler_def overrideDiscovery_def
        end_override_def routeDiscovery_def results_def from_b_preq_def test_request_def
        List.map_filter_def)
  with chain_route_s1_s4 from_b_routeDiscovery show ?thesis
    by (simp add: from_b_preq_def test_request_def)
qed

text \<open>
  C5, as the code has it. When the start stage returns no segment (with or without an error
  of its own), the three stages are marked with "no start segments found", the end and route
  handlers have no part in the outcome, and the resolution fails with that same reason: the
  error of the start stage itself is overwritten. When the start stage returns segments and
  the end stage returns none, the end and route stages are marked with "no end segments
  found", the route handler has no part in the outcome, and the resolution fails, with the
  error of the start stage if it returned one besides its segments, else with "no end
  segments found". The handlers that \<^verbatim>\<open>newDefaultRequestHandler\<close> installs return no segment
  whenever they return an error, so with them a failing stage is a stage without segments.
  The route stage is the last and is not tested for emptiness: when the start and end stages
  have returned segments, the attempt records what the three handlers returned, the error of
  the route stage as it is; when neither of the first two returned an error besides its
  segments (the installed handlers never do), the resolution fails with the error of the route
  stage if it returned one, and otherwise succeeds with the three lists, be the route empty
  or not.
\<close>

theorem handle_failure_propagation:
  "(fst (startHandler s (initial_preq (hand_req s))) = [] \<longrightarrow>
      handleAttempt s = failed_attempt [] ErrNoStartSegments \<and>
      handleAttempt (s\<lparr>endHandler := eh, routeHandler := rh\<rparr>) = handleAttempt s \<and>
      handle s = Inl ErrNoStartSegments) \<and>
   (fst (startHandler s (initial_preq (hand_req s))) \<noteq> [] \<and>
    fst (endHandler s ((initial_preq (hand_req s))
          \<lparr>preq_startSegments := fst (startHandler s (initial_preq (hand_req s)))\<rparr>)) = [] \<longrightarrow>
      att_endErr (handleAttempt s) = Some ErrNoEndSegments \<and>
      att_routeErr (handleAttempt s) = Some ErrNoEndSegments \<and>
      att_routeSegments (handleAttempt s) = [] \<and>
      handleAttempt (s\<lparr>routeHandler := rh\<rparr>) = handleAttempt s \<and>
      handle s = Inl (case snd (startHandler s (initial_preq (hand_req s))) of
                        Some e \<Rightarrow> e | None \<Rightarrow> ErrNoEndSegments)) \<and>
   (fst (startHandler s (initial_preq (hand_req s))) \<noteq> [] \<and>
    fst (endHandler s (end_preq s)) \<noteq> [] \<longrightarrow>
      handleAttempt s =
        \<lparr>att_startSegments = fst (startHandler s (initial_preq (hand_req s))),
         att_startErr = snd (startHandler s (initial_preq (hand_req s))),
         att_endSegments = fst (endHandler s (end_preq s)),
         att_endErr = snd (endHandler s (end_preq s)),
         att_routeSegments = fst (routeHandler s (route_preq s)),
         att_routeErr = snd (routeHandler s (route_preq s))\<rparr> \<and>
      (snd (startHandler s (initial_preq (hand_req s))) = None \<and>
       snd (endHandler s (end_preq s)) = None \<longrightarrow>
         (\<forall>e. snd (routeHandler s (route_preq s)) = Some e \<longrightarrow> handle s = Inl e) \<and>
         (snd (routeHandler s (route_preq s)) = None \<longrightarrow>
            handle s = Inr \<lparr>res_startSegments = fst (startHandler s (initial_preq (hand_req s))),
                            res_endSegments = fst (endHandler s (end_preq s)),
                            res_routeSegments = fst (routeHandler s (route_preq s))\<rparr>))) \<and>
   (snd (startHandler (newDefaultRequestHandler files st req) preq) \<noteq> None \<longrightarrow>
      fst (startHandler (newDefaultRequestHandler files st req) preq) = []) \<and>
   (snd (endHandler (newDefaultRequestHandler files st req) preq) \<noteq> None \<longrightarrow>
      fst (endHandler (newDefaultRequestHandler files st req) preq) = []) \<and>
   (snd (routeHandler (newDefaultRequestHandler files st req) preq) \<noteq> None \<longrightarrow>
      fst (routeHandler (newDefaultRequestHandler files st req) preq) = [])"
proof -
  let ?p = "initial_preq (hand_req s)"
  have 6: "handleAttempt s =
        \<lparr>att_startSegments = fst (startHandler s ?p), att_startErr = snd (startHandler s ?p),
         att_endSegments = fst (endHandler s (end_preq s)),
         att_endErr = snd (endHandler s (end_preq s)),
         att_routeSegments = fst (routeHandler s (route_preq s)),
         att_routeErr = snd (routeHandler s (route_preq s))\<rparr> \<and>
      (snd (startHandler s ?p) = None \<and> snd (endHandler s (end_preq s)) = None \<longrightarrow>
         (\<forall>e. snd (routeHandler s (route_preq s)) = Some e \<longrightarrow> handle s = Inl e) \<and>
         (snd (routeHandler s (route_preq s)) = None \<longrightarrow>
            handle s = Inr \<lparr>res_startSegments = fst (startHandler s ?p),
                            res_endSegments = fst (endHandler s (end_preq s)),
                            res_routeSegments = fst (routeHandler s (route_preq s))\<rparr>))"
    if ne: "fst (startHandler s ?p) \<noteq> []" and nee: "fst (endHandler s (end_preq s)) \<noteq> []"
  proof -
    note a = handleAttempt_route [OF ne nee]
    show ?thesis unfolding a by (simp add: handle_def a List.map_filter_def)
  qed
  have 1: "handleAttempt s = failed_attempt [] ErrNoStartSegments \<and>
      handleAttempt (s\<lparr>endHandler := eh, routeHandler := rh\<rparr>) = handleAttempt s \<and>
      handle s = Inl ErrNoStartSegments"
    if "fst (startHandler s ?p) = []"
  proof -
    from that have a: "handleAttempt s = failed_attempt [] ErrNoStartSegments"
      by (rule handleAttempt_no_start)
    from that have "handleAttempt (s\<lparr>endHandler := eh, routeHandler := rh\<rparr>) =
        failed_attempt [] ErrNoStartSegments"
      by (intro handleAttempt_no_start) simp
    with a show ?thesis
      by (simp add: handle_def failed_attempt_def List.map_filter_def)
  qed
  have 2: "att_endErr (handleAttempt s) = Some ErrNoEndSegments \<and>
      att_routeErr (handleAttempt s) = Some ErrNoEndSegments \<and>
      att_routeSegments (handleAttempt s) = [] \<and>
      handleAttempt (s\<lparr>routeHandler := rh\<rparr>) = handleAttempt s \<and>
      handle s = Inl (case snd (startHandler s ?p) of Some e \<Rightarrow> e | None \<Rightarrow> ErrNoEndSegments)"
    if ne: "fst (startHandler s ?p) \<noteq> []"
      and em: "fst (endHandler s (?p\<lparr>preq_startSegments := fst (startHandler s ?p)\<rparr>)) = []"
  proof -
    have a: "handleAttempt s =
       \<lparr>att_startSegments = fst (startHandler s ?p), att_startErr = snd (startHandler s ?p),
        att_endSegments = [], att_endErr = Some ErrNoEndSegments,
        att_routeSegments = [], att_routeErr = Some ErrNoEndSegments\<rparr>"
      by (rule handleAttempt_no_end [OF refl ne em])
    have b: "handleAttempt (s\<lparr>routeHandler := rh\<rparr>) =
       \<lparr>att_startSegments = fst (startHandler s ?p), att_startErr = snd (startHandler s ?p),
        att_endSegments = [], att_endErr = Some ErrNoEndSegments,
        att_routeSegments = [], att_routeErr = Some ErrNoEndSegments\<rparr>"
      using handleAttempt_no_end [of "s\<lparr>routeHandler := rh\<rparr>" "fst (startHandler s ?p)"] ne em
      by simp
    show ?thesis unfolding b unfolding a
      by (simp add: handle_def a List.map_filter_def split: option.splits)
  qed
  have 3: "snd (startHandler (newDefaultRequestHandler files st req) preq) \<noteq> None \<longrightarrow>
      fst (startHandler (newDefaultRequestHandler files st req) preq) = []"
    using default_start_error [of files "''start''" st preq]
    by (simp add: newDefaultRequestHandler_def)
  have 4: "snd (endHandler (newDefaultRequestHandler files st req) preq) \<noteq> None \<longrightarrow>
      fst (endHandler (newDefaultRequestHandler files st req) preq) = []"
    using default_end_error [of files "''end''" st preq]
    by (simp add: newDefaultRequestHandler_def)
  have 5: "snd (routeHandler (newDefaultRequestHandler files st req) preq) \<noteq> None \<longrightarrow>
      fst (routeHandler (newDefaultRequestHandler files st req) preq) = []"
    using default_route_error [of files "''route''" st preq]
    by (simp add: newDefaultRequestHandler_def)
  from 1 2 3 4 5 6 show ?thesis by blast
qed

lemma oneway_start_c:
  "startDiscovery oneway_store (initial_preq (test_request ''One Way'' ''C St'' ''A St''))
     = ([o2], None)"
  by (simp add: pipeline_simps route_simps initial_preq_def oneway_store_def o1_def o2_def)

lemma oneway_end_a:
  "endDiscovery oneway_store ((initial_preq (test_request ''One Way'' ''C St'' ''A St''))
     \<lparr>preq_startSegments := [o2]\<rparr>) = ([o1], None)"
  by (simp add: pipeline_simps route_simps initial_preq_def oneway_store_def o1_def o2_def)

lemma oneway_route_c_a:
  "routeDiscovery oneway_store ((initial_preq (test_request ''One Way'' ''C St'' ''A St''))
     \<lparr>preq_startSegments := [o2], preq_endSegments := [o1]\<rparr>) = ([], Some ErrNoPath)"
  using oneway_route_o2_o1
  by (simp add: routeDiscovery_def routeDiscovery'_def results_def initial_preq_def
      test_request_def)

lemma chain_start_e:
  "startDiscovery chain_store (initial_preq (test_request ''Test Ln'' ''A St'' ''E St''))
     = ([s1], None)"
  by (simp add: pipeline_simps route_simps initial_preq_def chain_store_def s1_def s2_def s3_def
      s4_def irr_def)

lemma chain_end_e:
  "endDiscovery chain_store ((initial_preq (test_request ''Test Ln'' ''A St'' ''E St''))
     \<lparr>preq_startSegments := [s1]\<rparr>) = ([s4], None)"
  by (simp add: pipeline_simps route_simps initial_preq_def chain_store_def s1_def s2_def s3_def
      s4_def irr_def)

lemma chain_no_99: "filterSegments chain_store (no_filter\<lparr>ids := [99]\<rparr>) = []"
  by (simp add: route_simps chain_store_def s1_def s2_def s3_def s4_def irr_def)

theorem handle_failure_propagation_witness:
  "fst (startHandler (newDefaultRequestHandler no_files conflict_store
          (test_request ''Test Ln'' ''A St'' ''Nowhere Crs''))
        (initial_preq (test_request ''Test Ln'' ''A St'' ''Nowhere Crs''))) = [] \<and>
   handle (newDefaultRequestHandler no_files conflict_store
          (test_request ''Test Ln'' ''A St'' ''Nowhere Crs'')) = Inl ErrNoStartSegments \<and>
   fst (startHandler (newDefaultRequestHandler no_files chain_store
          (test_request ''Test Ln'' ''A St'' ''Nowhere Crs''))
        (initial_preq (test_request ''Test Ln'' ''A St'' ''Nowhere Crs''))) = [s1] \<and>
   fst (endHandler (newDefaultRequestHandler no_files chain_store
          (test_request ''Test Ln'' ''A St'' ''Nowhere Crs''))
        ((initial_preq (test_request ''Test Ln'' ''A St'' ''Nowhere Crs''))
           \<lparr>preq_startSegments := [s1]\<rparr>)) = [] \<and>
   handle (newDefaultRequestHandler no_files chain_store
          (test_request ''Test Ln'' ''A St'' ''Nowhere Crs'')) = Inl ErrNoEndSegments \<and>
   startHandler (newDefaultRequestHandler no_files oneway_store
          (test_request ''One Way'' ''C St'' ''A St''))
        (initial_preq (test_request ''One Way'' ''C St'' ''A St'')) = ([o2], None) \<and>
   endHandler (newDefaultRequestHandler no_files oneway_store
          (test_request ''One Way'' ''C St'' ''A St''))
        (end_preq (newDefaultRequestHandler no_files oneway_store
          (test_request ''One Way'' ''C St'' ''A St''))) = ([o1], None) \<and>
   routeHandler (newDefaultRequestHandler no_files oneway_store
          (test_request ''One Way'' ''C St'' ''A St''))
        (route_preq (newDefaultRequestHandler no_files oneway_store
          (test_request ''One Way'' ''C St'' ''A St''))) = ([], Some ErrNoPath) \<and>
   handle (newDefaultRequestHandler no_files oneway_store
          (test_request ''One Way'' ''C St'' ''A St'')) = Inl ErrNoPath \<and>
   routeHandler (newDefaultRequestHandler route_override chain_store
          (test_request ''Test Ln'' ''A St'' ''E St''))
        (route_preq (newDefaultRequestHandler route_override chain_store
          (test_request ''Test Ln'' ''A St'' ''E St''))) = ([], None) \<and>
   handle (newDefaultRequestHandler route_override chain_store
          (test_request ''Test Ln'' ''A St'' ''E St''))
     = Inr \<lparr>res_startSegments = [s1], res_endSegments = [s4], res_routeSegments = []\<rparr>"
proof -
  let ?rq = "test_request ''One Way'' ''C St'' ''A St''"
  let ?o = "newDefaultRequestHandler no_files oneway_store ?rq"
  have os: "startHandler ?o (initial_preq (hand_req ?o)) = ([o2], None)"
    using oneway_start_c
    by (simp add: newDefaultRequestHandler_def overrideDiscovery_def no_files_def)
  then have op: "end_preq ?o = (initial_preq ?rq)\<lparr>preq_startSegments := [o2]\<rparr>"
    by (simp add: end_preq_def newDefaultRequestHandler_def)
  have oe: "endHandler ?o (end_preq ?o) = ([o1], None)"
    unfolding op using oneway_end_a
    by (simp add: newDefaultRequestHandler_def overrideDiscovery_def no_files_def initial_preq_def)
  then have oq: "route_preq ?o =
      (initial_preq ?rq)\<lparr>preq_startSegments := [o2], preq_endSegments := [o1]\<rparr>"
    by (simp add: route_preq_def op)
  have orr: "routeHandler ?o (route_preq ?o) = ([], Some ErrNoPath)"
    unfolding oq using oneway_route_c_a
    by (simp add: newDefaultRequestHandler_def overrideDiscovery_def no_files_def initial_preq_def)
  from handle_failure_propagation [of ?o] os oe orr
  have 3: "handle ?o = Inl ErrNoPath" by simp
  let ?re = "test_request ''Test Ln'' ''A St'' ''E St''"
  let ?v = "newDefaultRequestHandler route_override chain_store ?re"
  have vs: "startHandler ?v (initial_preq (hand_req ?v)) = ([s1], None)"
    using chain_start_e
    by (simp add: newDefaultRequestHandler_def overrideDiscovery_def route_override_def)
  then have vp: "end_preq ?v = (initial_preq ?re)\<lparr>preq_startSegments := [s1]\<rparr>"
    by (simp add: end_preq_def newDefaultRequestHandler_def)
  have ve: "endHandler ?v (end_preq ?v) = ([s4], None)"
    unfolding vp using chain_end_e
    by (simp add: newDefaultRequestHandler_def overrideDiscovery_def route_override_def
        initial_preq_def)
  have vr: "routeHandler ?v (route_preq ?v) = ([], None)"
    using chain_no_99
    by (simp add: newDefaultRequestHandler_def overrideDiscovery_def route_override_def
        route_preq_def test_request_def)
  from handle_failure_propagation [of ?v] vs ve vr
  have 4: "handle ?v = Inr \<lparr>res_startSegments = [s1], res_endSegments = [s4],
      res_routeSegments = []\<rparr>" by simp
  let ?req = "test_request ''Test Ln'' ''A St'' ''Nowhere Crs''"
  let ?c = "newDefaultRequestHandler no_files conflict_store ?req"
  let ?h = "newDefaultRequestHandler no_files chain_store ?req"
  have c: "startHandler ?c (initial_preq (hand_req ?c)) = ([], Some (ErrRouteConflict 2))"
    using conflict_start
    by (simp add: newDefaultRequestHandler_def overrideDiscovery_def no_files_def initial_preq_def)
  have hs: "startHandler ?h (initial_preq (hand_req ?h)) = ([s1], None)"
    using chain_start_a
    by (simp add: newDefaultRequestHandler_def overrideDiscovery_def no_files_def initial_preq_def)
  have he: "endHandler ?h ((initial_preq (hand_req ?h))\<lparr>preq_startSegments := [s1]\<rparr>) = ([], None)"
    using chain_end_nowhere
    by (simp add: newDefaultRequestHandler_def overrideDiscovery_def no_files_def initial_preq_def)
  from handle_failure_propagation [of ?c] c
  have 1: "handle ?c = Inl ErrNoStartSegments" by simp
  from handle_failure_propagation [of ?h] hs he
  have 2: "handle ?h = Inl ErrNoEndSegments" by simp
  have 5: "hand_req ?o = ?rq" "hand_req ?c = ?req" "hand_req ?h = ?req"
    by (simp_all add: newDefaultRequestHandler_def)
  from c hs he 1 2 os oe orr 3 vr 4 show ?thesis unfolding 5 by simp
qed

text \<open>
  C5 as stated fails in its example: on the segments of the repository's route-conflict test,
  start discovery fails with the ambiguity error, and the error reported to the caller is
  "no start segments found".
\<close>

theorem handle_failure_propagation_counterexample:
  "loadSegments taxicab [a1, a2] store_init = (None, conflict_store) \<and>
   startDiscovery conflict_store (initial_preq (test_request ''Test Ln'' ''A St'' ''Nowhere Crs''))
     = ([], Some (ErrRouteConflict 2)) \<and>
   handle (newDefaultRequestHandler no_files conflict_store
            (test_request ''Test Ln'' ''A St'' ''Nowhere Crs'')) = Inl ErrNoStartSegments \<and>
   ErrNoStartSegments \<noteq> ErrRouteConflict 2"
  using conflict_load conflict_start
  by (simp add: handle_def handleAttempt_def newDefaultRequestHandler_def overrideDiscovery_def
      no_files_def initial_preq_def List.map_filter_def)

text \<open>
  C6. Let \<open>segs\<close> be the stored segments matched by the request's name and, when given, its
  from street. When they carry more than one route id, start discovery returns an error (the
  route conflict, with the number of routes) and no segment; otherwise it returns all of
  \<open>segs\<close>, in the order of the table.
\<close>

theorem startDiscovery_route_conflict:
  assumes "segs = filter (start_match (preq_req preq)) (segments st)"
  shows "(1 < card (routeID ` set segs) \<longrightarrow>
            startDiscovery st preq = ([], Some (ErrRouteConflict (card (routeID ` set segs))))) \<and>
         (card (routeID ` set segs) \<le> 1 \<longrightarrow> startDiscovery st preq = (segs, None))"
proof -
  have "length (remdups (map routeID segs)) = card (routeID ` set segs)"
    by (simp add: length_remdups_card_conv)
  then show ?thesis unfolding startDiscovery_filter assms by (auto simp: Let_def)
qed

theorem startDiscovery_route_conflict_witness:
  "[a1, a2] = filter (start_match (test_request ''Test Ln'' ''A St'' ''Nowhere Crs''))
                (segments conflict_store) \<and>
   card (routeID ` set [a1, a2]) = 2 \<and>
   startDiscovery conflict_store (initial_preq (test_request ''Test Ln'' ''A St'' ''Nowhere Crs''))
     = ([], Some (ErrRouteConflict 2)) \<and>
   [s1, s2] = filter (start_match (test_request ''Test Ln'' ''B St'' ''Nowhere Crs''))
                (segments chain_store) \<and>
   card (routeID ` set [s1, s2]) = 1 \<and>
   startDiscovery chain_store (initial_preq (test_request ''Test Ln'' ''B St'' ''Nowhere Crs''))
     = ([s1, s2], None)"
proof -
  let ?ra = "test_request ''Test Ln'' ''A St'' ''Nowhere Crs''"
  let ?rb = "test_request ''Test Ln'' ''B St'' ''Nowhere Crs''"
  have ca: "card (routeID ` set [a1, a2]) = 2"
    by (simp add: a1_def a2_def test_segment_def)
  have cb: "card (routeID ` set [s1, s2]) = 1"
    by (simp add: s1_def s2_def test_segment_def)
  have ma: "[a1, a2] = filter (start_match (preq_req (initial_preq ?ra))) (segments conflict_store)"
    using conflict_match by (simp add: initial_preq_def)
  have mb: "[s1, s2] = filter (start_match (preq_req (initial_preq ?rb))) (segments chain_store)"
    using chain_match by (simp add: initial_preq_def)
  from startDiscovery_route_conflict [OF ma] ca
  have 1: "startDiscovery conflict_store (initial_preq ?ra) = ([], Some (ErrRouteConflict 2))"
    by simp
  from startDiscovery_route_conflict [OF mb] cb
  have 2: "startDiscovery chain_store (initial_preq ?rb) = ([s1, s2], None)"
    by simp
  from 1 2 ca cb conflict_match chain_match show ?thesis by simp
qed

text \<open>
  C7: the code at the failing input. The request "Test Ln from A St to D St" has the single
  start candidate \<open>z5\<close>; the path found is \<open>z5, z0, z7\<close>; the id 0 of \<open>z0\<close> is not the id of a
  start candidate, yet \<open>z5\<close> is dropped, and the route returned starts at \<open>z0\<close>. The zeros
  that \<open>startIDs\<close> holds besides the ids are the whole of the defect (\<open>trim_startIDs\<close>).
\<close>

theorem trim_drops_at_id_zero:
  "loadSegments taxicab [z0, z5, z7] store_init = (None, zero_store) \<and>
   route zero_store [z5] [z7] = Inr [z5, z0, z7] \<and>
   seg_id z0 \<notin> seg_id ` set [z5] \<and>
   handle (newDefaultRequestHandler no_files zero_store (test_request ''Test Ln'' ''A St'' ''D St''))
     = Inr \<lparr>res_startSegments = [z5], res_endSegments = [z7], res_routeSegments = [z0, z7]\<rparr>"
proof -
  have "handle (newDefaultRequestHandler no_files zero_store (test_request ''Test Ln'' ''A St'' ''D St''))
     = Inr \<lparr>res_startSegments = [z5], res_endSegments = [z7], res_routeSegments = [z0, z7]\<rparr>"
    using zero_start zero_end zero_routeDiscovery
    by (simp add: handle_def handleAttempt_def newDefaultRequestHandler_def overrideDiscovery_def
        no_files_def test_request_def List.map_filter_def)
  then show ?thesis using zero_load zero_route
    by (simp add: z0_def z5_def test_segment_def)
qed

text \<open>
  C9, as the code has it. The three discovery functions do not read the rank: each gives the
  same result for a request and for the same request under another rank. The handlers of a
  request wrap them in \<^verbatim>\<open>overrideDiscovery\<close>, which selects the override file of each stage by
  the rank; when the two ranks have the same override files (none, in particular), the
  attempts and the results for the two requests are the same.
\<close>

theorem discovery_rank_independent:
  "startDiscovery st (with_rank k preq) = startDiscovery st preq \<and>
   endDiscovery st (with_rank k preq) = endDiscovery st preq \<and>
   routeDiscovery st (with_rank k preq) = routeDiscovery st preq \<and>
   ((\<forall>stage. files k stage = files (rank req) stage) \<longrightarrow>
      handleAttempt (newDefaultRequestHandler files st (req\<lparr>rank := k\<rparr>)) =
        handleAttempt (newDefaultRequestHandler files st req) \<and>
      handle (newDefaultRequestHandler files st (req\<lparr>rank := k\<rparr>)) =
        handle (newDefaultRequestHandler files st req))"
  using handleAttempt_rank [of files k req st]
  by (simp add: startDiscovery_rank endDiscovery_rank routeDiscovery_rank handle_def)

theorem discovery_rank_independent_witness:
  "(\<forall>stage. no_files 7 stage = no_files (rank (test_request ''Test Ln'' ''A St'' ''E St'')) stage) \<and>
   handle (newDefaultRequestHandler no_files chain_store
            ((test_request ''Test Ln'' ''A St'' ''E St'')\<lparr>rank := 7\<rparr>))
     = Inr \<lparr>res_startSegments = [s1], res_endSegments = [s4],
            res_routeSegments = [s1, s2, s3, s4]\<rparr>"
proof -
  let ?req = "test_request ''Test Ln'' ''A St'' ''E St''"
  have a: "\<forall>stage. no_files 7 stage = no_files (rank ?req) stage" by (simp add: no_files_def)
  with discovery_rank_independent [of chain_store 7 _ no_files ?req]
  have "handle (newDefaultRequestHandler no_files chain_store (?req\<lparr>rank := 7\<rparr>)) =
        handle (newDefaultRequestHandler no_files chain_store ?req)" by blast
  with a chain_handle show ?thesis by simp
qed

text \<open>
  C9 as stated fails: two requests that differ in their rank only, on one database, and the
  start stage finds \<open>s2\<close> for the one (rank 1 has an override file) and \<open>s1\<close> for the other.
\<close>

theorem discovery_rank_counterexample:
  "startHandler (newDefaultRequestHandler rank_override chain_store
       ((test_request ''Test Ln'' ''A St'' ''E St'')\<lparr>rank := 1\<rparr>))
     (initial_preq ((test_request ''Test Ln'' ''A St'' ''E St'')\<lparr>rank := 1\<rparr>)) = ([s2], None) \<and>
   startHandler (newDefaultRequestHandler rank_override chain_store
       ((test_request ''Test Ln'' ''A St'' ''E St'')\<lparr>rank := 2\<rparr>))
     (initial_preq ((test_request ''Test Ln'' ''A St'' ''E St'')\<lparr>rank := 2\<rparr>)) = ([s1], None) \<and>
   seg_id s2 \<noteq> seg_id s1"
proof -
  have 1: "filterSegments chain_store (no_filter\<lparr>ids := [2]\<rparr>) = [s2]"
    by (simp add: route_simps chain_store_def s1_def s2_def s3_def s4_def irr_def)
  have 2: "startDiscovery chain_store
      (initial_preq ((test_request ''Test Ln'' ''A St'' ''E St'')\<lparr>rank := 2\<rparr>)) = ([s1], None)"
    by (simp add: pipeline_simps route_simps initial_preq_def chain_store_def s1_def s2_def s3_def
        s4_def irr_def)
  from 1 2 show ?thesis
    by (simp add: newDefaultRequestHandler_def overrideDiscovery_def rank_override_def
        initial_preq_def test_request_def s1_def s2_def test_segment_def)
qed

end
